theory Spec2Isabelle
  imports Main "HOL-Library.Word" "HOL-Library.Monad_Syntax"
begin

unbundle bit_operations_syntax

section \<open>The buddy allocator of include/BuddyAllocator.h\<close>

text \<open>
  The class template \<open>BuddyAllocator<MAX_POWER, ALIGNMENT>\<close> is embedded with its
  compile-time parameters as a value passed to every function. Besides \<open>MAX_POWER\<close>
  the code depends on two facts of the platform: \<open>sizeof(void*)\<close> and the address at
  which \<open>m_buffer\<close> is placed. Both are fields of the configuration, so that every
  result holds for every pointer width and every placement of the object.
  (\<open>ALIGNMENT\<close> only constrains the placement and is not read by any function.)

  Pointers are addresses (natural numbers); \<open>nullptr\<close> is address 0. An order is a
  \<open>uint8_t\<close> in the source; every order the functions below compute is checked against
  \<open>MAX_ORDER\<close> (at most 31) before it is incremented, so it is modelled by a natural number.
  The result \<open>None\<close> of a function stands for undefined behaviour of the C++ program
  (a shift by 32 or more, an access outside the object) or for a loop that does not return.
\<close>

record config =
  MAX_POWER :: nat
  PTR_SIZE :: nat
  BASE :: nat

subsection \<open>log2, MIN_ORDER, MAX_ORDER\<close>

text \<open>
  \<open>log2\<close> (lines 46-54): \<open>while ((1U << result) < size) ++result\<close> on \<open>uint32_t\<close>.
  Shifting a 32-bit value by 32 is undefined, which is what happens when \<open>size\<close> exceeds
  \<open>2^31\<close>.
\<close>

function log2_loop :: "nat \<Rightarrow> 32 word \<Rightarrow> nat option" where
  "log2_loop result sz =
     (if 32 \<le> result then None
      else if (push_bit result 1 :: 32 word) < sz then log2_loop (Suc result) sz
      else Some result)"
  by pat_completeness auto
termination
  by (relation "measure (\<lambda>(result, sz). 32 - result)") auto

declare log2_loop.simps [simp del]

definition log2 :: "32 word \<Rightarrow> nat option" where
  "log2 sz = log2_loop 0 sz"

text \<open>
  \<open>MIN_ORDER = log2(sizeof(void*) + 1)\<close> is a constant expression: were the shift
  undefined the program would not compile, so the \<open>None\<close> branch is never taken by a
  configuration that satisfies the static assertions (\<open>wf_config\<close> below).
\<close>

definition MIN_ORDER :: "config \<Rightarrow> nat" where
  "MIN_ORDER c = (case log2 (word_of_nat (PTR_SIZE c + 1)) of Some r \<Rightarrow> r | None \<Rightarrow> 0)"

definition MAX_ORDER :: "config \<Rightarrow> nat" where
  "MAX_ORDER c = MAX_POWER c"

text \<open>
  The static assertions of lines 65-66, the range of \<open>MAX_POWER\<close> for which the buffer
  size \<open>1 << MAX_ORDER\<close> is a 32-bit value, and the placement of the buffer: its base
  is not the null address and every address of the buffer fits a pointer.
\<close>

definition wf_config :: "config \<Rightarrow> bool" where
  "wf_config c \<longleftrightarrow>
     0 < PTR_SIZE c \<and>
     PTR_SIZE c + 1 \<le> 2 ^ MIN_ORDER c \<and>
     MIN_ORDER c \<le> MAX_ORDER c \<and>
     MAX_POWER c \<le> 31 \<and>
     0 < BASE c \<and>
     BASE c + 2 ^ MAX_POWER c \<le> 256 ^ PTR_SIZE c"

subsection \<open>The object and its memory\<close>

text \<open>
  The three data members (lines 171-178). \<open>m_freelists\<close> holds one head pointer per order
  and \<open>m_buffer\<close> the \<open>1 << MAX_ORDER\<close> bytes of the pool. \<open>m_dummy\<close> stands for the byte
  of the object at the address just below the buffer, the one that line 116 writes for
  the block at offset 0: the member \<open>m_dummy\<close> itself when the buffer follows it directly,
  and otherwise the last of the padding bytes that the alignment of \<open>m_buffer\<close> inserts
  after it. The code reads this byte only after it has written it.
\<close>

record allocator =
  m_freelists :: "nat list"
  m_dummy :: "8 word"
  m_buffer :: "8 word list"

text \<open>
  A pointer stored in the buffer (\<open>*reinterpret_cast<uint8_t**>(block)\<close>) occupies
  \<open>sizeof(void*)\<close> bytes. Its object representation is the address, least significant
  byte first.
\<close>

primrec encode_ptr :: "nat \<Rightarrow> nat \<Rightarrow> 8 word list" where
  "encode_ptr 0 a = []"
| "encode_ptr (Suc n) a = word_of_nat a # encode_ptr n (a div 256)"

primrec decode_ptr :: "8 word list \<Rightarrow> nat" where
  "decode_ptr [] = 0"
| "decode_ptr (b # bs) = unat b + 256 * decode_ptr bs"

definition read_bytes :: "nat \<Rightarrow> nat \<Rightarrow> 'a list \<Rightarrow> 'a list" where
  "read_bytes off n buf = take n (drop off buf)"

definition write_bytes :: "nat \<Rightarrow> 'a list \<Rightarrow> 'a list \<Rightarrow> 'a list" where
  "write_bytes off bs buf = take off buf @ bs @ drop (off + length bs) buf"

text \<open>
  Byte access through a \<open>uint8_t*\<close>. The address just below the buffer is the pad byte
  that \<open>*(block - 1)\<close> reaches for the block at offset 0; any address outside the pad
  byte and the buffer is outside the object.
\<close>

definition load_byte :: "config \<Rightarrow> allocator \<Rightarrow> nat \<Rightarrow> 8 word option" where
  "load_byte c s a =
     (if a + 1 = BASE c then Some (m_dummy s)
      else if BASE c \<le> a \<and> a - BASE c < length (m_buffer s) then Some (m_buffer s ! (a - BASE c))
      else None)"

definition store_byte :: "config \<Rightarrow> allocator \<Rightarrow> nat \<Rightarrow> 8 word \<Rightarrow> allocator option" where
  "store_byte c s a v =
     (if a + 1 = BASE c then Some (s\<lparr>m_dummy := v\<rparr>)
      else if BASE c \<le> a \<and> a - BASE c < length (m_buffer s)
        then Some (s\<lparr>m_buffer := (m_buffer s)[a - BASE c := v]\<rparr>)
      else None)"

text \<open>Pointer access through a \<open>uint8_t**\<close> that points into the buffer.\<close>

definition load_ptr :: "config \<Rightarrow> allocator \<Rightarrow> nat \<Rightarrow> nat option" where
  "load_ptr c s a =
     (if BASE c \<le> a \<and> a - BASE c + PTR_SIZE c \<le> length (m_buffer s)
        then Some (decode_ptr (read_bytes (a - BASE c) (PTR_SIZE c) (m_buffer s)))
      else None)"

definition store_ptr :: "config \<Rightarrow> allocator \<Rightarrow> nat \<Rightarrow> nat \<Rightarrow> allocator option" where
  "store_ptr c s a v =
     (if BASE c \<le> a \<and> a - BASE c + PTR_SIZE c \<le> length (m_buffer s)
        then Some (s\<lparr>m_buffer := write_bytes (a - BASE c) (encode_ptr (PTR_SIZE c) v) (m_buffer s)\<rparr>)
      else None)"

text \<open>
  In \<open>free\<close> the variable \<open>uint8_t** ptr\<close> points either at an element of
  \<open>m_freelists\<close> or at the link stored in a block of the buffer.
\<close>

datatype loc = Slot nat | Link nat

fun load_loc :: "config \<Rightarrow> allocator \<Rightarrow> loc \<Rightarrow> nat option" where
  "load_loc c s (Slot i) = (if i < length (m_freelists s) then Some (m_freelists s ! i) else None)"
| "load_loc c s (Link a) = load_ptr c s a"

fun store_loc :: "config \<Rightarrow> allocator \<Rightarrow> loc \<Rightarrow> nat \<Rightarrow> allocator option" where
  "store_loc c s (Slot i) v =
     (if i < length (m_freelists s) then Some (s\<lparr>m_freelists := (m_freelists s)[i := v]\<rparr>) else None)"
| "store_loc c s (Link a) v = store_ptr c s a v"

subsection \<open>Constructor\<close>

text \<open>
  Lines 68-73: all members are value-initialised, then the whole buffer is entered as the
  only block of the top free list.
\<close>

definition BuddyAllocator :: "config \<Rightarrow> allocator" where
  "BuddyAllocator c =
     \<lparr> m_freelists = (replicate (MAX_ORDER c - MIN_ORDER c + 1) 0)[MAX_ORDER c - MIN_ORDER c := BASE c],
       m_dummy = 0,
       m_buffer = replicate (2 ^ MAX_ORDER c) 0 \<rparr>"

subsection \<open>buddy_of\<close>

text \<open>Lines 164-169. It is only called with pointers into the buffer, so \<open>ptr - base\<close> is not negative.\<close>

definition buddy_of :: "config \<Rightarrow> nat \<Rightarrow> nat \<Rightarrow> nat" where
  "buddy_of c ptr order = BASE c + ((ptr - BASE c) XOR 2 ^ order)"

subsection \<open>alloc\<close>

text \<open>Lines 92-96: the search for the first non-empty free list from \<open>order\<close> upwards.\<close>

function alloc_find_loop :: "config \<Rightarrow> allocator \<Rightarrow> nat \<Rightarrow> nat \<Rightarrow> nat \<times> nat" where
  "alloc_find_loop c s block index =
     (if block = 0 \<and> index < MAX_ORDER c
        then alloc_find_loop c s (m_freelists s ! (Suc index - MIN_ORDER c)) (Suc index)
      else (block, index))"
  by pat_completeness auto
termination
  by (relation "measure (\<lambda>(c, s, block, index). MAX_ORDER c - index)") auto

declare alloc_find_loop.simps [simp del]

text \<open>Lines 106-113: the block is halved down to \<open>order\<close>; each upper half is pushed on its free list.\<close>

function alloc_split_loop :: "config \<Rightarrow> allocator \<Rightarrow> nat \<Rightarrow> nat \<Rightarrow> nat \<Rightarrow> allocator option" where
  "alloc_split_loop c s block index order =
     (if order < index then
        do {
          let index' = index - 1;
          let buddy = buddy_of c block index';
          s' \<leftarrow> store_ptr c s buddy (m_freelists s ! (index' - MIN_ORDER c));
          alloc_split_loop c (s'\<lparr>m_freelists := (m_freelists s')[index' - MIN_ORDER c := buddy]\<rparr>)
            block index' order
        }
      else Some s)"
  by pat_completeness auto
termination
  by (relation "measure (\<lambda>(c, s, block, index, order). index)") auto

declare alloc_split_loop.simps [simp del]

text \<open>
  Lines 78-118. The result is the returned pointer (0 for \<open>nullptr\<close>) and the state after
  the call.
\<close>

definition alloc :: "config \<Rightarrow> allocator \<Rightarrow> 32 word \<Rightarrow> (nat \<times> allocator) option" where
  "alloc c s sz =
     do {
       l \<leftarrow> log2 (sz + 1);
       let order = max (MIN_ORDER c) l;
       if sz = 0 \<or> MAX_ORDER c < order then Some (0, s)
       else
         let (block, index) = alloc_find_loop c s (m_freelists s ! (order - MIN_ORDER c)) order in
         if block = 0 then Some (0, s)
         else do {
           next \<leftarrow> load_ptr c s block;
           let s1 = s\<lparr>m_freelists := (m_freelists s)[index - MIN_ORDER c := next]\<rparr>;
           s2 \<leftarrow> alloc_split_loop c s1 block index order;
           s3 \<leftarrow> store_byte c s2 (block - 1) (word_of_nat order);
           Some (block, s3)
         }
     }"

subsection \<open>free\<close>

text \<open>Lines 137-141: walk the free list of the order until the buddy or the end is found.\<close>

partial_function (option) free_find_loop :: "config \<Rightarrow> allocator \<Rightarrow> nat \<Rightarrow> loc \<Rightarrow> loc option" where
  "free_find_loop c s buddy ptr =
     do {
       v \<leftarrow> load_loc c s ptr;
       if v \<noteq> 0 \<and> v \<noteq> buddy then free_find_loop c s buddy (Link v) else Some ptr
     }"

text \<open>
  Lines 132-160, the \<open>while (true)\<close> loop. Indexing \<open>m_freelists\<close> with an order outside
  \<open>MIN_ORDER .. MAX_ORDER\<close> is an access outside the array. The result is the state and
  the value of \<open>order\<close> when the loop is left; the number of coalescing rounds is that
  value minus the initial order.
\<close>

partial_function (option) free_loop :: "config \<Rightarrow> allocator \<Rightarrow> nat \<Rightarrow> nat \<Rightarrow> (allocator \<times> nat) option" where
  "free_loop c s block order =
     (if order < MIN_ORDER c \<or> MAX_ORDER c < order then None
      else do {
        let buddy = buddy_of c block order;
        ptr \<leftarrow> free_find_loop c s buddy (Slot (order - MIN_ORDER c));
        v \<leftarrow> load_loc c s ptr;
        if v = 0 then do {
          s' \<leftarrow> store_ptr c s block (m_freelists s ! (order - MIN_ORDER c));
          Some (s'\<lparr>m_freelists := (m_freelists s')[order - MIN_ORDER c := block]\<rparr>, order)
        }
        else do {
          n \<leftarrow> load_ptr c s v;
          s' \<leftarrow> store_loc c s ptr n;
          free_loop c s' (min block buddy) (Suc order)
        }
      })"

declare free_find_loop.simps [code]
declare free_loop.simps [code]

text \<open>Lines 120-161.\<close>

definition free :: "config \<Rightarrow> allocator \<Rightarrow> nat \<Rightarrow> allocator option" where
  "free c s pointer =
     (if pointer = 0 then Some s
      else do {
        order \<leftarrow> load_byte c s (pointer - 1);
        r \<leftarrow> free_loop c s pointer (unat order);
        Some (fst r)
      })"

section \<open>Specification vocabulary\<close>

text \<open>
  The definitions of this section are not functions of the allocator. They state what
  the claims are about: the order the specification computes for a request, the blocks
  of the buffer, the free lists as they are laid out in memory, the states a program
  can reach by calling the allocator, and the small pools on which the claims are
  evaluated.
\<close>

text \<open>
  The \<open>ceil_log2\<close> of the specification: the least \<open>k\<close> with \<open>n \<le> 2 ^ k\<close>, computed by
  halving with rounding up.
\<close>

function ceil_log2 :: "nat \<Rightarrow> nat" where
  "ceil_log2 n = (if n \<le> 1 then 0 else Suc (ceil_log2 ((n + 1) div 2)))"
  by pat_completeness auto

termination
  by (relation "measure (\<lambda>n. n)") auto

declare ceil_log2.simps [simp del]

text \<open>
  A block is given by its offset in the buffer and its order; it spans \<open>2 ^ order\<close> bytes.
\<close>

type_synonym block = "nat \<times> nat"

definition span :: "block \<Rightarrow> nat set" where
  "span b = {fst b ..< fst b + 2 ^ snd b}"

text \<open>
  The blocks of the buddy system: the order lies between \<open>MIN_ORDER\<close> and \<open>MAX_ORDER\<close>,
  the offset is a multiple of the size, and the block lies inside the buffer.
\<close>

definition valid_block :: "config \<Rightarrow> block \<Rightarrow> bool" where
  "valid_block c b \<longleftrightarrow>
     MIN_ORDER c \<le> snd b \<and> snd b \<le> MAX_ORDER c \<and>
     2 ^ snd b dvd fst b \<and> fst b + 2 ^ snd b \<le> 2 ^ MAX_ORDER c"

text \<open>
  The abstract state of the allocator is a function \<open>F\<close> from each order to the offsets
  on the free list of that order (head first), together with the set \<open>N\<close> of the blocks
  that are not free. \<open>free_blocks F\<close> is the set of the free blocks.
\<close>

definition free_blocks :: "(nat \<Rightarrow> nat list) \<Rightarrow> block set" where
  "free_blocks F = {(x, k). x \<in> set (F k)}"

text \<open>
  A set of blocks tiles the buffer: all are blocks of the buddy system, and every byte of
  the buffer lies in exactly one of them.
\<close>

definition tiling :: "config \<Rightarrow> block set \<Rightarrow> bool" where
  "tiling c B \<longleftrightarrow>
     (\<forall>b\<in>B. valid_block c b) \<and> (\<forall>x<2 ^ MAX_ORDER c. \<exists>!b. b \<in> B \<and> x \<in> span b)"

text \<open>
  No block of a free list has its buddy, the block whose offset differs in bit \<open>order\<close>,
  on the same free list.
\<close>

definition no_buddies :: "(nat \<Rightarrow> nat list) \<Rightarrow> bool" where
  "no_buddies F \<longleftrightarrow> (\<forall>k. \<forall>x\<in>set (F k). x XOR 2 ^ k \<notin> set (F k))"

text \<open>
  The invariant: the free blocks and the other blocks together tile the buffer, no block
  is both, no free list holds an offset twice, and no two free blocks are buddies.
\<close>

definition ainv :: "config \<Rightarrow> (nat \<Rightarrow> nat list) \<Rightarrow> block set \<Rightarrow> bool" where
  "ainv c F N \<longleftrightarrow>
     tiling c (free_blocks F \<union> N) \<and> free_blocks F \<inter> N = {} \<and>
     (\<forall>k. distinct (F k)) \<and> no_buddies F"

text \<open>
  The lengths of the two arrays (lines 173 and 178).
\<close>

definition shape :: "config \<Rightarrow> allocator \<Rightarrow> bool" where
  "shape c s \<longleftrightarrow>
     length (m_freelists s) = MAX_ORDER c - MIN_ORDER c + 1 \<and>
     length (m_buffer s) = 2 ^ MAX_ORDER c"

text \<open>
  The free lists as they lie in memory: \<open>lpath c s h xs t\<close> holds when following the
  links from the pointer \<open>h\<close> visits the blocks at the offsets \<open>xs\<close>, in this order, and
  arrives at the pointer \<open>t\<close>. The link of a block is the pointer stored in its first
  \<open>sizeof(void*)\<close> bytes. A list (\<open>llist\<close>) is a path that ends with \<open>nullptr\<close>.
\<close>

primrec lpath :: "config \<Rightarrow> allocator \<Rightarrow> nat \<Rightarrow> nat list \<Rightarrow> nat \<Rightarrow> bool" where
  "lpath c s h [] t \<longleftrightarrow> h = t"
| "lpath c s h (x # xs) t \<longleftrightarrow>
     h = BASE c + x \<and>
     (case load_ptr c s (BASE c + x) of None \<Rightarrow> False | Some n \<Rightarrow> lpath c s n xs t)"

definition llist :: "config \<Rightarrow> allocator \<Rightarrow> nat \<Rightarrow> nat list \<Rightarrow> bool" where
  "llist c s h xs = lpath c s h xs 0"

text \<open>
  The state \<open>s\<close> represents the free lists \<open>F\<close>: the head stored in \<open>m_freelists\<close> for
  each order starts the list of the offsets \<open>F\<close> gives for that order.
\<close>

definition rep :: "config \<Rightarrow> allocator \<Rightarrow> (nat \<Rightarrow> nat list) \<Rightarrow> bool" where
  "rep c s F \<longleftrightarrow>
     shape c s \<and>
     (\<forall>k. MIN_ORDER c \<le> k \<and> k \<le> MAX_ORDER c \<longrightarrow>
        llist c s (m_freelists s ! (k - MIN_ORDER c)) (F k))"

text \<open>
  The bytes of a block without its last one (which holds the order byte of the block that
  follows it).
\<close>

definition inner :: "block \<Rightarrow> nat set" where
  "inner b = {fst b ..< fst b + 2 ^ snd b - 1}"

text \<open>
  \<open>frame X s s'\<close>: the buffer of \<open>s'\<close> is the buffer of \<open>s\<close> except at the offsets in \<open>X\<close>.
\<close>

definition frame :: "nat set \<Rightarrow> allocator \<Rightarrow> allocator \<Rightarrow> bool" where
  "frame X s s' \<longleftrightarrow>
     length (m_buffer s') = length (m_buffer s) \<and>
     (\<forall>i<length (m_buffer s). i \<notin> X \<longrightarrow> m_buffer s' ! i = m_buffer s ! i)"

text \<open>
  A step preserves the blocks of \<open>N\<close>: for each of them it leaves unchanged every byte
  but the last, and the order byte in front of the block.
\<close>

definition preserves :: "config \<Rightarrow> block set \<Rightarrow> allocator \<Rightarrow> allocator \<Rightarrow> bool" where
  "preserves c N s s' \<longleftrightarrow>
     (\<forall>b\<in>N. (\<forall>i\<in>inner b. m_buffer s' ! i = m_buffer s ! i) \<and>
            load_byte c s' (BASE c + fst b - 1) = load_byte c s (BASE c + fst b - 1))"

text \<open>
  The search of lines 137-141 for the buddy of \<open>block\<close> arrives at the end of the free
  list, so that the test of line 144 succeeds.
\<close>

definition search_fails :: "config \<Rightarrow> allocator \<Rightarrow> nat \<Rightarrow> nat \<Rightarrow> bool" where
  "search_fails c s block order \<longleftrightarrow>
     (\<exists>ptr. free_find_loop c s (buddy_of c block order) (Slot (order - MIN_ORDER c)) = Some ptr \<and>
            load_loc c s ptr = Some 0)"

text \<open>
  The loop of \<open>free\<close> was left at order \<open>kf\<close> with state \<open>s'\<close> through a round that began
  with a block of order \<open>kf\<close> and in which the search failed.
\<close>

definition last_round :: "config \<Rightarrow> allocator \<Rightarrow> nat \<Rightarrow> bool" where
  "last_round c s' kf \<longleftrightarrow>
     (\<exists>s1 a1. valid_block c (a1, kf) \<and> free_loop c s1 (BASE c + a1) kf = Some (s', kf) \<and>
              search_fails c s1 (BASE c + a1) kf)"

text \<open>
  The order that line 81 computes for a request.
\<close>

definition req_order :: "config \<Rightarrow> 32 word \<Rightarrow> nat" where
  "req_order c sz = max (MIN_ORDER c) (case log2 (sz + 1) of Some l \<Rightarrow> l | None \<Rightarrow> 0)"

text \<open>
  The outstanding allocations are recorded in a ghost map \<open>L\<close> from each pointer that
  \<open>alloc\<close> returned, and that was not released since, to the size requested. \<open>live c L\<close>
  is the set of their blocks.
\<close>

definition live :: "config \<Rightarrow> (nat \<rightharpoonup> 32 word) \<Rightarrow> block set" where
  "live c L = {(a, k). \<exists>sz. L (BASE c + a) = Some sz \<and> k = req_order c sz}"

text \<open>
  What holds in every state a program reaches: the state represents free lists that
  satisfy the invariant together with the outstanding blocks, and every outstanding
  pointer lies at or above the base and has the order of its request in the byte in
  front of it.
\<close>

definition good :: "config \<Rightarrow> allocator \<Rightarrow> (nat \<rightharpoonup> 32 word) \<Rightarrow> bool" where
  "good c s L \<longleftrightarrow>
     (\<exists>F. rep c s F \<and> ainv c F (live c L)) \<and>
     (\<forall>p sz. L p = Some sz \<longrightarrow>
        BASE c \<le> p \<and> load_byte c s (p - 1) = Some (word_of_nat (req_order c sz)))"

text \<open>
  The states a program reaches, with the outstanding allocations: it constructs the
  allocator, calls \<open>alloc\<close>, calls \<open>free\<close> with an outstanding pointer or with \<open>nullptr\<close>,
  and writes to the bytes it requested. A write stays in front of the last byte of the
  block it got: for every request but \<open>0xFFFFFFFF\<close> a block has more bytes than were
  requested, so this second condition follows from the first.
\<close>

inductive reach :: "config \<Rightarrow> allocator \<Rightarrow> (nat \<rightharpoonup> 32 word) \<Rightarrow> bool" for c where
  construct: "reach c (BuddyAllocator c) Map.empty"
| alloc_ok: "reach c s L \<Longrightarrow> alloc c s sz = Some (p, s') \<Longrightarrow> p \<noteq> 0 \<Longrightarrow> reach c s' (L(p \<mapsto> sz))"
| alloc_null: "reach c s L \<Longrightarrow> alloc c s sz = Some (0, s') \<Longrightarrow> reach c s' L"
| free_ok: "reach c s L \<Longrightarrow> L p = Some sz \<Longrightarrow> free c s p = Some s' \<Longrightarrow> reach c s' (L(p := None))"
| free_null: "reach c s L \<Longrightarrow> free c s 0 = Some s' \<Longrightarrow> reach c s' L"
| payload_write: "reach c s L \<Longrightarrow> L p = Some sz \<Longrightarrow> i < unat sz \<Longrightarrow> i + 1 < 2 ^ req_order c sz \<Longrightarrow>
          store_byte c s (p + i) v = Some s' \<Longrightarrow> reach c s' L"

text \<open>
  A 64-bit target (pointers of 8 bytes, so \<open>MIN_ORDER = 4\<close>) with a pool of 64 bytes whose
  buffer is placed at address 4096.
\<close>

definition cfg64 :: config where
  "cfg64 = \<lparr> MAX_POWER = 6, PTR_SIZE = 8, BASE = 4096 \<rparr>"

text \<open>
  The \<open>n\<close> bytes of the allocation at \<open>q\<close> and its order byte at \<open>q - 1\<close> are the same in
  \<open>s\<close> and \<open>s'\<close>.
\<close>

definition kept :: "config \<Rightarrow> nat \<Rightarrow> nat \<Rightarrow> allocator \<Rightarrow> allocator \<Rightarrow> bool" where
  "kept c q n s s' \<longleftrightarrow>
     (\<forall>i<n. load_byte c s' (q + i) = load_byte c s (q + i)) \<and>
     load_byte c s' (q - 1) = load_byte c s (q - 1)"

text \<open>
  The loop of the capacity claim (and of the first test case, lines 50-59 of test.cpp,
  without its \<open>memset\<close>): allocate \<open>sz\<close> bytes until \<open>alloc\<close> returns \<open>nullptr\<close> and count
  the successful calls.
\<close>

partial_function (option) alloc_until_null ::
    "config \<Rightarrow> allocator \<Rightarrow> 32 word \<Rightarrow> nat \<Rightarrow> (nat \<times> allocator) option" where
  "alloc_until_null c s sz count =
     do {
       (p, s') \<leftarrow> alloc c s sz;
       if p = 0 then Some (count, s') else alloc_until_null c s' sz (count + 1)
     }"

declare alloc_until_null.simps [code]

text \<open>
  All blocks of order \<open>k\<close> of the buddy system; there are \<open>2 ^ (MAX_ORDER - k)\<close> of them.
\<close>

definition grid :: "config \<Rightarrow> nat \<Rightarrow> block set" where
  "grid c k = (\<lambda>i. (i * 2 ^ k, k)) ` {..< 2 ^ (MAX_ORDER c - k)}"

text \<open>
  A concrete run on a 64-bit target with a 64-byte pool (\<open>MAX_POWER = 6\<close>, so the orders
  are 4, 5 and 6), placed at address 4096: \<open>alloc(1)\<close> gives \<open>ex1\<close>, then \<open>alloc(15)\<close> gives
  \<open>ex2\<close>; from \<open>ex2\<close>, \<open>alloc(31)\<close> gives \<open>ex3\<close>, \<open>free(4112)\<close> gives \<open>ex4\<close>, and from \<open>ex4\<close>,
  \<open>free(4096)\<close> gives \<open>ex5\<close>.
\<close>

definition ex1 :: allocator where
  "ex1 = \<lparr> m_freelists = [4112, 4128, 0], m_dummy = 4, m_buffer = replicate 64 0 \<rparr>"

definition ex2 :: allocator where
  "ex2 = \<lparr> m_freelists = [0, 4128, 0], m_dummy = 4, m_buffer = (replicate 64 0)[15 := 4] \<rparr>"

definition ex3 :: allocator where
  "ex3 = \<lparr> m_freelists = [0, 0, 0], m_dummy = 4, m_buffer = (replicate 64 0)[15 := 4, 31 := 5] \<rparr>"

definition ex4 :: allocator where
  "ex4 = \<lparr> m_freelists = [4112, 4128, 0], m_dummy = 4, m_buffer = (replicate 64 0)[15 := 4] \<rparr>"

definition ex5 :: allocator where
  "ex5 = \<lparr> m_freelists = [0, 0, 4096], m_dummy = 4, m_buffer = (replicate 64 0)[15 := 4] \<rparr>"

text \<open>
  The outstanding allocations of \<open>ex1\<close> and \<open>ex4\<close>, and those of \<open>ex2\<close>.
\<close>

definition live1 :: "nat \<rightharpoonup> 32 word" where
  "live1 = [4096 \<mapsto> 1]"

definition live2 :: "nat \<rightharpoonup> 32 word" where
  "live2 = [4096 \<mapsto> 1, 4112 \<mapsto> 15]"

text \<open>
  A pool of a single minimum block (\<open>MAX_POWER = MIN_ORDER = 4\<close>), and its state after
  \<open>alloc(1)\<close>: the second allocation of claim C9 returns \<open>nullptr\<close> there.
\<close>

definition cfg16 :: config where
  "cfg16 = \<lparr> MAX_POWER = 4, PTR_SIZE = 8, BASE = 4096 \<rparr>"

definition ex16 :: allocator where
  "ex16 = \<lparr> m_freelists = [0], m_dummy = 4, m_buffer = replicate 16 0 \<rparr>"

section \<open>Verification\<close>

subsection \<open>Logarithms, pointer encoding and the buddy offset\<close>

lemma ceil_log2_upper: "n \<le> 2 ^ ceil_log2 n"
proof (induction n rule: ceil_log2.induct)
  case (1 n)
  show ?case
  proof (cases "n \<le> 1")
    case True
    then show ?thesis by (simp add: ceil_log2.simps)
  next
    case False
    then have "(n + 1) div 2 \<le> 2 ^ ceil_log2 ((n + 1) div 2)" using 1 by simp
    then have "n \<le> 2 * 2 ^ ceil_log2 ((n + 1) div 2)" by linarith
    then show ?thesis using False by (subst ceil_log2.simps) simp
  qed
qed

lemma ceil_log2_lower: "0 < ceil_log2 n \<Longrightarrow> 2 ^ (ceil_log2 n - 1) < n"
proof (induction n rule: ceil_log2.induct)
  case (1 n)
  show ?case
  proof (cases "n \<le> 1")
    case True
    then show ?thesis using 1(2) by (simp add: ceil_log2.simps)
  next
    case False
    let ?m = "(n + 1) div 2"
    have eq: "ceil_log2 n = Suc (ceil_log2 ?m)" using False by (subst ceil_log2.simps) simp
    show ?thesis
    proof (cases "ceil_log2 ?m = 0")
      case True
      then show ?thesis using False eq by simp
    next
      case F2: False
      then have "2 ^ (ceil_log2 ?m - 1) < ?m" using 1(1) False by simp
      then have "2 * 2 ^ (ceil_log2 ?m - 1) < n" by linarith
      moreover have "2 * 2 ^ (ceil_log2 ?m - 1) = (2::nat) ^ ceil_log2 ?m"
        using F2 by (cases "ceil_log2 ?m") simp_all
      ultimately show ?thesis using eq by simp
    qed
  qed
qed

lemma ceil_log2_unique:
  assumes "n \<le> 2 ^ k" and "\<forall>j<k. 2 ^ j < n"
  shows "ceil_log2 n = k"
proof (rule antisym)
  show "ceil_log2 n \<le> k"
  proof (rule ccontr)
    assume "\<not> ceil_log2 n \<le> k"
    then have "k \<le> ceil_log2 n - 1" "0 < ceil_log2 n" by auto
    then have "(2::nat) ^ k \<le> 2 ^ (ceil_log2 n - 1)" by (simp add: power_increasing)
    with ceil_log2_lower[OF \<open>0 < ceil_log2 n\<close>] assms(1) show False by linarith
  qed
  show "k \<le> ceil_log2 n"
  proof (rule ccontr)
    assume "\<not> k \<le> ceil_log2 n"
    then have "2 ^ ceil_log2 n < n" using assms(2) by simp
    with ceil_log2_upper[of n] show False by simp
  qed
qed

lemma ceil_log2_least: "ceil_log2 n = (LEAST k. n \<le> 2 ^ k)"
proof (rule Least_equality[symmetric])
  show "n \<le> 2 ^ ceil_log2 n" by (rule ceil_log2_upper)
next
  fix y assume "n \<le> 2 ^ y"
  show "ceil_log2 n \<le> y"
  proof (rule ccontr)
    assume "\<not> ceil_log2 n \<le> y"
    then have "y \<le> ceil_log2 n - 1" "0 < ceil_log2 n" by auto
    then have "(2::nat) ^ y \<le> 2 ^ (ceil_log2 n - 1)" by (simp add: power_increasing)
    with ceil_log2_lower[OF \<open>0 < ceil_log2 n\<close>] \<open>n \<le> 2 ^ y\<close> show False by linarith
  qed
qed

lemma ceil_log2_mono_bound: "n \<le> 2 ^ k \<Longrightarrow> ceil_log2 n \<le> k"
  by (simp add: ceil_log2_least Least_le)

lemma unat_pow2_32: "r < 32 \<Longrightarrow> unat (2 ^ r :: 32 word) = 2 ^ r"
proof -
  assume r: "r < 32"
  have "(2 ^ r :: 32 word) = word_of_nat (2 ^ r)" by simp
  moreover have "(2::nat) ^ r < 2 ^ 32" using r by (intro power_strict_increasing) auto
  ultimately show ?thesis by (simp add: unat_of_nat del: of_nat_power)
qed

lemma push_bit_1_less_iff:
  "r < 32 \<Longrightarrow> (2 ^ r :: 32 word) < sz \<longleftrightarrow> 2 ^ r < unat sz"
  by (simp add: word_less_nat_alt unat_pow2_32)

lemma log2_loop_spec:
  "unat sz \<le> 2 ^ 31 \<Longrightarrow> r \<le> 31 \<Longrightarrow> \<forall>j<r. 2 ^ j < unat sz \<Longrightarrow>
   \<exists>k. log2_loop r sz = Some k \<and> k \<le> 31 \<and> unat sz \<le> 2 ^ k \<and> (\<forall>j<k. 2 ^ j < unat sz)"
proof (induction r sz rule: log2_loop.induct)
  case (1 result sz)
  have lt: "result < 32" using 1(3) by simp
  show ?case
  proof (cases "2 ^ result < unat sz")
    case True
    have "result \<noteq> 31" using True 1(2) by auto
    then have r: "Suc result \<le> 31" using 1(3) by simp
    have all: "\<forall>j<Suc result. 2 ^ j < unat sz" using 1(4) True by (simp add: less_Suc_eq)
    have c1: "\<not> 32 \<le> result" using lt by simp
    have c2: "(push_bit result 1 :: 32 word) < sz" using True lt by (simp add: push_bit_1_less_iff)
    from 1(1)[OF c1 c2 1(2) r all] obtain k where
      "log2_loop (Suc result) sz = Some k \<and> k \<le> 31 \<and> unat sz \<le> 2 ^ k \<and> (\<forall>j<k. 2 ^ j < unat sz)"
      by blast
    then show ?thesis using c1 c2 by (subst log2_loop.simps) simp
  next
    case False
    then show ?thesis using 1(3,4) lt by (subst log2_loop.simps) (simp add: push_bit_1_less_iff)
  qed
qed

lemma log2_eq:
  assumes "unat sz \<le> 2 ^ 31"
  shows "log2 sz = Some (ceil_log2 (unat sz))"
proof -
  from log2_loop_spec[OF assms, of 0] obtain k where
    k: "log2_loop 0 sz = Some k" "unat sz \<le> 2 ^ k" "\<forall>j<k. 2 ^ j < unat sz" by auto
  then show ?thesis by (simp add: log2_def ceil_log2_unique)
qed

lemma log2_loop_undefined:
  "2 ^ 31 < unat sz \<Longrightarrow> r \<le> 32 \<Longrightarrow> log2_loop r sz = None"
proof (induction r sz rule: log2_loop.induct)
  case (1 result sz)
  show ?case
  proof (cases "32 \<le> result")
    case True
    then show ?thesis by (subst log2_loop.simps) simp
  next
    case False
    then have lt: "result < 32" by simp
    have "(2::nat) ^ result \<le> 2 ^ 31" using lt by (intro power_increasing) auto
    then have "2 ^ result < unat sz" using 1(2) by linarith
    then have c2: "(push_bit result 1 :: 32 word) < sz" using lt by (simp add: push_bit_1_less_iff)
    have "log2_loop (Suc result) sz = None" using 1(1)[OF False c2 1(2)] lt by simp
    then show ?thesis using False c2 by (subst log2_loop.simps) simp
  qed
qed

lemma log2_undefined: "2 ^ 31 < unat sz \<Longrightarrow> log2 sz = None"
  by (simp add: log2_def log2_loop_undefined)

lemma length_encode_ptr [simp]: "length (encode_ptr n a) = n"
  by (induction n arbitrary: a) auto

lemma decode_encode_ptr: "a < 256 ^ n \<Longrightarrow> decode_ptr (encode_ptr n a) = a"
proof (induction n arbitrary: a)
  case 0
  then show ?case by simp
next
  case (Suc n)
  have "a div 256 < 256 ^ n" using Suc.prems by (simp add: less_mult_imp_div_less mult.commute)
  then have "decode_ptr (encode_ptr n (a div 256)) = a div 256" by (rule Suc.IH)
  moreover have "unat (word_of_nat a :: 8 word) = a mod 256" by (simp add: unat_of_nat)
  ultimately show ?case by simp
qed

lemma decode_replicate_0 [simp]: "decode_ptr (replicate n 0) = 0"
  by (induction n) auto

lemma length_write_bytes [simp]:
  "off + length bs \<le> length buf \<Longrightarrow> length (write_bytes off bs buf) = length buf"
  by (simp add: write_bytes_def)

lemma nth_write_bytes:
  "off + length bs \<le> length buf \<Longrightarrow> i < length buf \<Longrightarrow>
   write_bytes off bs buf ! i = (if off \<le> i \<and> i < off + length bs then bs ! (i - off) else buf ! i)"
  by (auto simp: write_bytes_def nth_append)

lemma read_write_bytes_same:
  "off + length bs \<le> length buf \<Longrightarrow> read_bytes off (length bs) (write_bytes off bs buf) = bs"
  by (simp add: read_bytes_def write_bytes_def)

lemma read_bytes_cong:
  "off + n \<le> length buf \<Longrightarrow> length buf' = length buf \<Longrightarrow>
   (\<And>i. i < n \<Longrightarrow> buf' ! (off + i) = buf ! (off + i)) \<Longrightarrow>
   read_bytes off n buf' = read_bytes off n buf"
  by (auto simp: read_bytes_def intro!: nth_equalityI)

lemma bit_nat_ge: "bit (x::nat) k \<Longrightarrow> 2 ^ k \<le> x"
proof (rule ccontr)
  assume b: "bit x k" and "\<not> 2 ^ k \<le> x"
  then have "x div 2 ^ k = 0" by simp
  with b show False by (simp add: bit_iff_odd)
qed

lemma xor_pow2: "(x::nat) XOR 2 ^ k = (if bit x k then x - 2 ^ k else x + 2 ^ k)"
proof -
  have "int (x XOR 2 ^ k) = flip_bit k (int x)"
    by (simp add: flip_bit_eq_xor of_nat_xor_eq)
  also have "\<dots> = (if bit x k then int x - 2 ^ k else int x + 2 ^ k)"
    by (simp add: flip_bit_eq_if set_bit_eq unset_bit_eq bit_of_nat_iff)
  finally have eq: "int (x XOR 2 ^ k) = (if bit x k then int x - 2 ^ k else int x + 2 ^ k)" .
  show ?thesis
  proof (cases "bit x k")
    case True
    then have "int (x XOR 2 ^ k) = int (x - 2 ^ k)"
      using eq bit_nat_ge[of x k] by (simp add: of_nat_diff)
    then show ?thesis using True by simp
  next
    case False
    then have "int (x XOR 2 ^ k) = int (x + 2 ^ k)" using eq by simp
    then show ?thesis using False by (simp del: of_nat_add)
  qed
qed

lemma xor_pow2_xor_pow2: "((x::nat) XOR 2 ^ k) XOR 2 ^ k = x"
  by (simp add: xor.assoc)

lemma xor_pow2_neq: "(x::nat) XOR 2 ^ k \<noteq> x"
proof (cases "bit x k")
  case True
  have "0 < x" using bit_nat_ge[OF True] by (simp add: Suc_le_eq order_less_le_trans[of 0 "2 ^ k" x])
  then have "x - 2 ^ k < x" by (intro diff_less) simp_all
  then show ?thesis using True by (simp add: xor_pow2)
next
  case False
  then show ?thesis by (simp add: xor_pow2)
qed

lemma dvd_pow2_cases:
  assumes "2 ^ k dvd (x::nat)"
  obtains m where "x = 2 ^ k * m"
  using assms by (auto simp: dvd_def)

lemma xor_pow2_even: "(2 ^ k * (2 * m) :: nat) XOR 2 ^ k = 2 ^ k * (2 * m + 1)"
  by (simp add: xor_pow2 bit_iff_odd)

lemma xor_pow2_odd: "(2 ^ k * (2 * m + 1) :: nat) XOR 2 ^ k = 2 ^ k * (2 * m)"
  by (simp add: xor_pow2 bit_iff_odd algebra_simps)

lemma buddy_cases:
  assumes "2 ^ k dvd (x::nat)"
  obtains (lower) m where "x = 2 ^ Suc k * m" "x XOR 2 ^ k = x + 2 ^ k"
        | (upper) m where "x = 2 ^ Suc k * m + 2 ^ k" "x XOR 2 ^ k = x - 2 ^ k"
proof -
  from assms obtain n where n: "x = 2 ^ k * n" by (auto simp: dvd_def)
  show thesis
  proof (cases "even n")
    case True
    then obtain m where m: "n = 2 * m" by (auto elim: evenE)
    have "x XOR 2 ^ k = x + 2 ^ k" unfolding n m xor_pow2_even by simp
    moreover have "x = 2 ^ Suc k * m" by (simp add: n m)
    ultimately show thesis by (rule lower[rotated])
  next
    case False
    then obtain m where m: "n = 2 * m + 1" by (auto elim: oddE)
    have "x XOR 2 ^ k = x - 2 ^ k" unfolding n m xor_pow2_odd by simp
    moreover have "x = 2 ^ Suc k * m + 2 ^ k" by (simp add: n m)
    ultimately show thesis by (rule upper[rotated])
  qed
qed

lemma xor_pow2_dvd: "2 ^ k dvd (x::nat) \<Longrightarrow> 2 ^ k dvd (x XOR 2 ^ k)"
  by (erule buddy_cases) auto

lemma min_xor_pow2_dvd: "2 ^ k dvd (x::nat) \<Longrightarrow> 2 ^ Suc k dvd min x (x XOR 2 ^ k)"
  by (erule buddy_cases) auto

lemma max_xor_pow2:
  "max x (x XOR 2 ^ k) = min (x::nat) (x XOR 2 ^ k) + 2 ^ k"
  using bit_nat_ge[of x k] by (auto simp: xor_pow2)

lemma xor_pow2_aligned: "2 ^ Suc k dvd (x::nat) \<Longrightarrow> x XOR 2 ^ k = x + 2 ^ k"
proof -
  assume "2 ^ Suc k dvd x"
  then obtain m where "x = 2 ^ k * (2 * m)" by (auto simp: dvd_def)
  then show ?thesis by (simp only: xor_pow2_even) simp
qed

subsection \<open>Aligned blocks and tilings\<close>

lemma dvd_less_add_le:
  assumes "d dvd (a::nat)" "d dvd b" "a < b + d"
  shows "a \<le> b"
proof -
  from assms obtain m n where mn: "a = d * m" "b = d * n" by (auto simp: dvd_def)
  have "d * m < d * Suc n" using assms(3) mn by simp
  then have "m < Suc n" by (simp only: mult_less_cancel1)
  then show ?thesis using mn by simp
qed

lemma in_span: "x \<in> span (a, k) \<longleftrightarrow> a \<le> x \<and> x < a + 2 ^ k"
  by (simp add: span_def)

lemma span_Suc: "span (a, Suc k) = span (a, k) \<union> span (a + 2 ^ k, k)"
  by (auto simp: span_def)

lemma span_halves_disjoint: "span (a, k) \<inter> span (a + 2 ^ k, k) = {}"
  by (auto simp: span_def)

lemma span_nonempty: "fst b \<in> span b"
  by (simp add: span_def)

lemma aligned_nested:
  assumes "2 ^ k dvd a" "2 ^ k' dvd a'" "k \<le> k'" "x \<in> span (a, k)" "x \<in> span (a', k')"
  shows "a' \<le> a \<and> a + 2 ^ k \<le> a' + 2 ^ k'"
proof -
  have d: "(2::nat) ^ k dvd 2 ^ k'" using assms(3) by (simp add: le_imp_power_dvd)
  then have d1: "2 ^ k dvd a'" using assms(2) by (rule dvd_trans)
  have d2: "2 ^ k dvd a' + 2 ^ k'" using d d1 by simp
  have "a' < a + 2 ^ k" using assms(4,5) by (simp add: in_span)
  then have 1: "a' \<le> a" using d1 assms(1) by (rule_tac dvd_less_add_le)
  have "a < a' + 2 ^ k'" using assms(4,5) by (simp add: in_span)
  then have "a + 2 ^ k \<le> a' + 2 ^ k'"
    using dvd_less_add_le[of "2 ^ k" "a + 2 ^ k" "a' + 2 ^ k'"] assms(1) d2 by simp
  with 1 show ?thesis by simp
qed

lemma aligned_same_order:
  assumes "2 ^ k dvd a" "2 ^ k dvd a'" "x \<in> span (a, k)" "x \<in> span (a', k)"
  shows "a = a'"
  using aligned_nested[OF assms(1,2) le_refl assms(3,4)]
        aligned_nested[OF assms(2,1) le_refl assms(4,3)] by simp

lemma valid_block_lt: "valid_block c (a, k) \<Longrightarrow> x \<in> span (a, k) \<Longrightarrow> x < 2 ^ MAX_ORDER c"
  by (simp add: valid_block_def in_span)

lemma tiling_valid: "tiling c B \<Longrightarrow> b \<in> B \<Longrightarrow> valid_block c b"
  by (simp add: tiling_def)

lemma tiling_overlap:
  assumes "tiling c B" "b \<in> B" "b' \<in> B" "x \<in> span b" "x \<in> span b'"
  shows "b = b'"
proof -
  have "valid_block c b" using assms(1,2) by (rule tiling_valid)
  then have "x < 2 ^ MAX_ORDER c" using assms(4) by (cases b) (simp add: valid_block_lt)
  then have "\<exists>!b. b \<in> B \<and> x \<in> span b" using assms(1) by (simp add: tiling_def)
  then show ?thesis using assms(2-5) by blast
qed

lemma tiling_cover:
  "tiling c B \<Longrightarrow> x < 2 ^ MAX_ORDER c \<Longrightarrow> \<exists>b\<in>B. x \<in> span b"
  unfolding tiling_def by blast

lemma tiling_replace:
  assumes t: "tiling c B" and R: "R \<subseteq> B" and A: "\<forall>b\<in>A. valid_block c b"
    and cov: "\<Union>(span ` R) = \<Union>(span ` A)"
    and dis: "\<forall>b\<in>A. \<forall>b'\<in>A. b \<noteq> b' \<longrightarrow> span b \<inter> span b' = {}"
  shows "tiling c ((B - R) \<union> A)"
  unfolding tiling_def
proof (intro conjI ballI allI impI)
  fix b assume "b \<in> B - R \<union> A"
  then show "valid_block c b" using t A by (auto simp: tiling_def)
next
  fix x :: nat assume x: "x < 2 ^ MAX_ORDER c"
  from tiling_cover[OF t x] obtain b where b: "b \<in> B" "x \<in> span b" by blast
  show "\<exists>!b. b \<in> B - R \<union> A \<and> x \<in> span b"
  proof (cases "b \<in> R")
    case True
    then have "x \<in> \<Union>(span ` A)" using b(2) cov by blast
    then obtain a where a: "a \<in> A" "x \<in> span a" by blast
    show ?thesis
    proof (intro ex1I[of _ a] conjI)
      show "a \<in> B - R \<union> A" using a by simp
      show "x \<in> span a" by (rule a)
    next
      fix a' assume a': "a' \<in> B - R \<union> A \<and> x \<in> span a'"
      show "a' = a"
      proof (cases "a' \<in> A")
        case True
        then show ?thesis using a a' dis by blast
      next
        case False
        then have "a' \<in> B" "a' \<notin> R" using a' by auto
        then have "a' = b" using tiling_overlap[OF t _ b(1) _ b(2)] a' by blast
        then show ?thesis using \<open>a' \<notin> R\<close> True by simp
      qed
    qed
  next
    case False
    show ?thesis
    proof (intro ex1I[of _ b] conjI)
      show "b \<in> B - R \<union> A" using b False by simp
      show "x \<in> span b" by (rule b)
    next
      fix a' assume a': "a' \<in> B - R \<union> A \<and> x \<in> span a'"
      show "a' = b"
      proof (cases "a' \<in> A")
        case True
        then have "x \<in> \<Union>(span ` R)" using a' cov by blast
        then obtain r where r: "r \<in> R" "x \<in> span r" by blast
        then have "r = b" using tiling_overlap[OF t _ b(1) _ b(2)] R by blast
        then show ?thesis using r False by simp
      next
        case F2: False
        then have "a' \<in> B" using a' by auto
        then show ?thesis using tiling_overlap[OF t _ b(1) _ b(2)] a' by blast
      qed
    qed
  qed
qed

subsection \<open>The invariant under pop and split\<close>

lemma free_blocks_iff [simp]: "(x, k) \<in> free_blocks F \<longleftrightarrow> x \<in> set (F k)"
  by (simp add: free_blocks_def)

lemma free_blocks_cons: "free_blocks (F(k := x # F k)) = insert (x, k) (free_blocks F)"
  by (auto simp: free_blocks_def)

lemma free_blocks_remove:
  "distinct (F k) \<Longrightarrow> free_blocks (F(k := remove1 x (F k))) = free_blocks F - {(x, k)}"
  by (auto simp: free_blocks_def)

lemma free_blocks_tl:
  "distinct (F k) \<Longrightarrow> F k = x # rest \<Longrightarrow> free_blocks (F(k := rest)) = free_blocks F - {(x, k)}"
  by (auto simp: free_blocks_def)

lemma ainv_tiling: "ainv c F N \<Longrightarrow> tiling c (free_blocks F \<union> N)"
  by (simp add: ainv_def)

lemma ainv_distinct: "ainv c F N \<Longrightarrow> distinct (F k)"
  by (simp add: ainv_def)

lemma ainv_disj: "ainv c F N \<Longrightarrow> free_blocks F \<inter> N = {}"
  by (simp add: ainv_def)

lemma ainv_disjoint:
  assumes "ainv c F N" "x \<in> set (F k)"
  shows "(x, k) \<notin> N"
proof -
  have "(x, k) \<in> free_blocks F" using assms(2) by simp
  then show ?thesis using ainv_disj[OF assms(1)] by blast
qed

lemma ainv_no_buddies: "ainv c F N \<Longrightarrow> x \<in> set (F k) \<Longrightarrow> x XOR 2 ^ k \<notin> set (F k)"
  by (auto simp: ainv_def no_buddies_def)

lemma ainv_valid_free: "ainv c F N \<Longrightarrow> x \<in> set (F k) \<Longrightarrow> valid_block c (x, k)"
  by (auto simp: ainv_def tiling_def)

lemma ainv_valid_N: "ainv c F N \<Longrightarrow> b \<in> N \<Longrightarrow> valid_block c b"
  by (auto simp: ainv_def tiling_def)

lemma ainv_pop:
  assumes inv: "ainv c F N" and Fj: "F j = x # rest"
  shows "ainv c (F(j := rest)) (insert (x, j) N)"
proof -
  have d: "distinct (F j)" using inv by (rule ainv_distinct)
  have fb: "free_blocks (F(j := rest)) = free_blocks F - {(x, j)}"
    using d Fj by (rule free_blocks_tl)
  have inF: "(x, j) \<in> free_blocks F" using Fj by simp
  have un: "free_blocks (F(j := rest)) \<union> insert (x, j) N = free_blocks F \<union> N"
    unfolding fb using inF by blast
  have dj: "free_blocks (F(j := rest)) \<inter> insert (x, j) N = {}"
    unfolding fb using ainv_disj[OF inv] by blast
  have di: "\<forall>k. distinct ((F(j := rest)) k)"
  proof
    fix k show "distinct ((F(j := rest)) k)"
      using ainv_distinct[OF inv, of k] Fj by (cases "k = j") simp_all
  qed
  have nb: "no_buddies (F(j := rest))"
    unfolding no_buddies_def
  proof (intro allI ballI)
    fix k y assume y: "y \<in> set ((F(j := rest)) k)"
    then have "y \<in> set (F k)" using Fj by (cases "k = j") auto
    then have "y XOR 2 ^ k \<notin> set (F k)" using inv by (rule_tac ainv_no_buddies)
    then show "y XOR 2 ^ k \<notin> set ((F(j := rest)) k)" using Fj by (cases "k = j") auto
  qed
  have "tiling c (free_blocks (F(j := rest)) \<union> insert (x, j) N)"
    unfolding un using inv by (rule ainv_tiling)
  then show ?thesis unfolding ainv_def using dj di nb by blast
qed

lemma valid_block_halves:
  assumes "valid_block c (a, Suc i)" "MIN_ORDER c \<le> i"
  shows "valid_block c (a, i)" "valid_block c (a + 2 ^ i, i)"
proof -
  have d: "2 ^ i dvd a" using assms(1) by (auto simp: valid_block_def dest: dvd_mult_right)
  show "valid_block c (a, i)" using assms d by (simp add: valid_block_def)
  show "valid_block c (a + 2 ^ i, i)" using assms d by (simp add: valid_block_def)
qed

lemma ainv_split:
  assumes inv: "ainv c F N" and aN: "(a, Suc i) \<in> N" and mi: "MIN_ORDER c \<le> i"
  shows "ainv c (F(i := (a + 2 ^ i) # F i)) (insert (a, i) (N - {(a, Suc i)}))"
proof -
  let ?B = "free_blocks F \<union> N"
  let ?u = "a + 2 ^ i"
  let ?F' = "F(i := ?u # F i)"
  let ?N' = "insert (a, i) (N - {(a, Suc i)})"
  have t: "tiling c ?B" using inv by (rule ainv_tiling)
  have aB: "(a, Suc i) \<in> ?B" using aN by simp
  have v: "valid_block c (a, Suc i)" using inv aN by (rule ainv_valid_N)
  note vh = valid_block_halves[OF v mi]
  have nu: "(?u, i) \<notin> ?B"
  proof
    assume "(?u, i) \<in> ?B"
    from tiling_overlap[OF t this aB, of ?u] show False by (simp add: in_span)
  qed
  have na: "(a, i) \<notin> ?B"
  proof
    assume "(a, i) \<in> ?B"
    from tiling_overlap[OF t this aB, of a] show False by (simp add: in_span)
  qed
  have nF: "(a, Suc i) \<notin> free_blocks F" using ainv_disj[OF inv] aN by blast
  have t': "tiling c ((?B - {(a, Suc i)}) \<union> {(a, i), (?u, i)})"
  proof (rule tiling_replace[OF t])
    show "{(a, Suc i)} \<subseteq> ?B" using aB by simp
    show "\<forall>b\<in>{(a, i), (?u, i)}. valid_block c b" using vh by simp
    show "\<Union> (span ` {(a, Suc i)}) = \<Union> (span ` {(a, i), (?u, i)})" by (simp add: span_Suc)
    show "\<forall>b\<in>{(a, i), (?u, i)}. \<forall>b'\<in>{(a, i), (?u, i)}. b \<noteq> b' \<longrightarrow> span b \<inter> span b' = {}"
      using span_halves_disjoint[of a i] by (auto simp: Int_commute)
  qed
  have un: "free_blocks ?F' \<union> ?N' = (?B - {(a, Suc i)}) \<union> {(a, i), (?u, i)}"
    unfolding free_blocks_cons using nF by blast
  have ne: "(?u, i) \<noteq> (a, i)" by simp
  have dj: "free_blocks ?F' \<inter> ?N' = {}"
    unfolding free_blocks_cons using nu na ne ainv_disj[OF inv] by blast
  have di: "\<forall>k. distinct (?F' k)"
  proof
    fix k show "distinct (?F' k)"
      using ainv_distinct[OF inv, of k] nu by (cases "k = i") simp_all
  qed
  have ua: "?u XOR 2 ^ i = a"
  proof -
    have "2 ^ Suc i dvd a" using v by (simp add: valid_block_def)
    then have "a XOR 2 ^ i = ?u" by (rule xor_pow2_aligned)
    then show ?thesis using xor_pow2_xor_pow2[of a i] by simp
  qed
  have nb: "no_buddies ?F'"
    unfolding no_buddies_def
  proof (intro allI ballI)
    fix k y assume y: "y \<in> set (?F' k)"
    show "y XOR 2 ^ k \<notin> set (?F' k)"
    proof (cases "k = i")
      case False
      then show ?thesis using y ainv_no_buddies[OF inv, of y k] by simp
    next
      case True
      show ?thesis
      proof (cases "y = ?u")
        case yu: True
        then show ?thesis using True ua na by auto
      next
        case False
        then have yF: "y \<in> set (F i)" using y True by simp
        then have 1: "y XOR 2 ^ i \<notin> set (F i)" using inv by (rule_tac ainv_no_buddies)
        have "y XOR 2 ^ i \<noteq> ?u"
        proof
          assume "y XOR 2 ^ i = ?u"
          then have "(y XOR 2 ^ i) XOR 2 ^ i = a" using ua by simp
          then have "y = a" by (simp add: xor_pow2_xor_pow2)
          then show False using yF na by simp
        qed
        then show ?thesis using 1 True by simp
      qed
    qed
  qed
  have "tiling c (free_blocks ?F' \<union> ?N')" unfolding un by (rule t')
  then show ?thesis unfolding ainv_def using dj di nb by blast
qed

subsection \<open>The invariant under coalescing and push\<close>

lemma buddy_pair:
  assumes va: "valid_block c (a, k)" and vb: "valid_block c (a XOR 2 ^ k, k)"
  obtains lo where "lo = min a (a XOR 2 ^ k)" "{a, a XOR 2 ^ k} = {lo, lo + 2 ^ k}"
    "valid_block c (lo, Suc k)"
proof -
  let ?b = "a XOR 2 ^ k"
  let ?lo = "min a ?b"
  have da: "2 ^ k dvd a" using va by (simp add: valid_block_def)
  have d: "2 ^ Suc k dvd ?lo" using da by (rule min_xor_pow2_dvd)
  have mx: "max a ?b = ?lo + 2 ^ k" by (rule max_xor_pow2)
  have set: "{a, ?b} = {?lo, ?lo + 2 ^ k}"
    using mx by (cases "a \<le> ?b") (auto simp: min_def max_def)
  have "max a ?b + 2 ^ k \<le> 2 ^ MAX_ORDER c"
    using va vb by (cases "a \<le> ?b") (auto simp: valid_block_def max_def)
  then have le: "?lo + 2 ^ Suc k \<le> 2 ^ MAX_ORDER c" using mx by simp
  then have "(2::nat) ^ Suc k \<le> 2 ^ MAX_ORDER c" by linarith
  then have "Suc k \<le> MAX_ORDER c" by (rule power_le_imp_le_exp[rotated]) simp
  moreover have "MIN_ORDER c \<le> Suc k" using va by (simp add: valid_block_def)
  ultimately have "valid_block c (?lo, Suc k)" using d le by (simp add: valid_block_def)
  then show thesis using set that by blast
qed

lemma ainv_coalesce:
  assumes inv: "ainv c F N" and aN: "(a, k) \<in> N" and bF: "a XOR 2 ^ k \<in> set (F k)"
  shows "ainv c (F(k := remove1 (a XOR 2 ^ k) (F k)))
           (insert (min a (a XOR 2 ^ k), Suc k) (N - {(a, k)}))"
proof -
  let ?B = "free_blocks F \<union> N"
  let ?b = "a XOR 2 ^ k"
  let ?F' = "F(k := remove1 ?b (F k))"
  have t: "tiling c ?B" using inv by (rule ainv_tiling)
  have aB: "(a, k) \<in> ?B" using aN by simp
  have bB: "(?b, k) \<in> ?B" using bF by simp
  have va: "valid_block c (a, k)" using inv aN by (rule ainv_valid_N)
  have vb: "valid_block c (?b, k)" using inv bF by (rule ainv_valid_free)
  from buddy_pair[OF va vb] obtain lo where lo: "lo = min a ?b"
    "{a, ?b} = {lo, lo + 2 ^ k}" "valid_block c (lo, Suc k)" by blast
  let ?N' = "insert (lo, Suc k) (N - {(a, k)})"
  have R: "{(a, k), (?b, k)} = {(lo, k), (lo + 2 ^ k, k)}"
    using lo(2) by (auto simp: doubleton_eq_iff)
  have t': "tiling c ((?B - {(a, k), (?b, k)}) \<union> {(lo, Suc k)})"
  proof (rule tiling_replace[OF t])
    show "{(a, k), (?b, k)} \<subseteq> ?B" using aB bB by simp
    show "\<forall>b\<in>{(lo, Suc k)}. valid_block c b" using lo(3) by simp
    show "\<Union> (span ` {(a, k), (?b, k)}) = \<Union> (span ` {(lo, Suc k)})"
      unfolding R by (simp add: span_Suc)
    show "\<forall>b\<in>{(lo, Suc k)}. \<forall>b'\<in>{(lo, Suc k)}. b \<noteq> b' \<longrightarrow> span b \<inter> span b' = {}"
      by simp
  qed
  have d: "distinct (F k)" using inv by (rule ainv_distinct)
  have fb: "free_blocks ?F' = free_blocks F - {(?b, k)}" using d by (rule free_blocks_remove)
  have nF: "(a, k) \<notin> free_blocks F" using ainv_disj[OF inv] aN by blast
  have nN: "(?b, k) \<notin> N" using inv bF by (rule ainv_disjoint)
  have un: "free_blocks ?F' \<union> ?N' = (?B - {(a, k), (?b, k)}) \<union> {(lo, Suc k)}"
    unfolding fb using nF nN by blast
  have nl: "(lo, Suc k) \<notin> ?B"
  proof
    assume "(lo, Suc k) \<in> ?B"
    moreover have "a \<in> span (lo, Suc k)" using lo(2) by (auto simp: span_Suc in_span doubleton_eq_iff)
    ultimately have "(lo, Suc k) = (a, k)" using tiling_overlap[OF t _ aB, of "(lo, Suc k)" a]
      by (simp add: in_span)
    then show False by simp
  qed
  have dj: "free_blocks ?F' \<inter> ?N' = {}"
    unfolding fb using nl ainv_disj[OF inv] by blast
  have di: "\<forall>j. distinct (?F' j)"
  proof
    fix j show "distinct (?F' j)"
      using ainv_distinct[OF inv, of j] by (cases "j = k") simp_all
  qed
  have nb: "no_buddies ?F'"
    unfolding no_buddies_def
  proof (intro allI ballI)
    fix j y assume y: "y \<in> set (?F' j)"
    then have "y \<in> set (F j)" using d by (cases "j = k") (simp_all add: set_remove1_eq)
    then have "y XOR 2 ^ j \<notin> set (F j)" using inv by (rule_tac ainv_no_buddies)
    then show "y XOR 2 ^ j \<notin> set (?F' j)" using d by (cases "j = k") (simp_all add: set_remove1_eq)
  qed
  have "tiling c (free_blocks ?F' \<union> ?N')" unfolding un by (rule t')
  then show ?thesis unfolding ainv_def lo(1)[symmetric] using dj di nb by blast
qed

lemma ainv_coalesce_order:
  assumes inv: "ainv c F N" and aN: "(a, k) \<in> N" and bF: "a XOR 2 ^ k \<in> set (F k)"
  shows "k < MAX_ORDER c"
proof -
  have va: "valid_block c (a, k)" using inv aN by (rule ainv_valid_N)
  have vb: "valid_block c (a XOR 2 ^ k, k)" using inv bF by (rule ainv_valid_free)
  from buddy_pair[OF va vb] obtain lo where "valid_block c (lo, Suc k)" by blast
  then show ?thesis by (simp add: valid_block_def)
qed

lemma ainv_push:
  assumes inv: "ainv c F N" and aN: "(a, k) \<in> N" and bF: "a XOR 2 ^ k \<notin> set (F k)"
  shows "ainv c (F(k := a # F k)) (N - {(a, k)})"
proof -
  let ?F' = "F(k := a # F k)"
  have nF: "(a, k) \<notin> free_blocks F" using ainv_disj[OF inv] aN by blast
  have un: "free_blocks ?F' \<union> (N - {(a, k)}) = free_blocks F \<union> N"
    unfolding free_blocks_cons using aN by blast
  have dj: "free_blocks ?F' \<inter> (N - {(a, k)}) = {}"
    unfolding free_blocks_cons using ainv_disj[OF inv] by blast
  have di: "\<forall>j. distinct (?F' j)"
  proof
    fix j show "distinct (?F' j)"
      using ainv_distinct[OF inv, of j] nF by (cases "j = k") simp_all
  qed
  have nb: "no_buddies ?F'"
    unfolding no_buddies_def
  proof (intro allI ballI)
    fix j y assume y: "y \<in> set (?F' j)"
    show "y XOR 2 ^ j \<notin> set (?F' j)"
    proof (cases "j = k")
      case False
      then show ?thesis using y ainv_no_buddies[OF inv, of y j] by simp
    next
      case True
      show ?thesis
      proof (cases "y = a")
        case ya: True
        then show ?thesis using True bF xor_pow2_neq[of a k] by simp
      next
        case False
        then have yF: "y \<in> set (F k)" using y True by simp
        then have 1: "y XOR 2 ^ k \<notin> set (F k)" using inv by (rule_tac ainv_no_buddies)
        have "y XOR 2 ^ k \<noteq> a"
        proof
          assume "y XOR 2 ^ k = a"
          then have "(y XOR 2 ^ k) XOR 2 ^ k = a XOR 2 ^ k" by simp
          then have "y = a XOR 2 ^ k" by (simp only: xor_pow2_xor_pow2)
          then show False using yF bF by simp
        qed
        then show ?thesis using 1 True by simp
      qed
    qed
  qed
  have "tiling c (free_blocks ?F' \<union> (N - {(a, k)}))" unfolding un using inv by (rule ainv_tiling)
  then show ?thesis unfolding ainv_def using dj di nb by blast
qed

subsection \<open>Free blocks of a full buffer\<close>

lemma dvd_less_add_le':
  assumes "d dvd (a::nat)" "d dvd b" "a < b"
  shows "a + d \<le> b"
  using dvd_less_add_le[of d "a + d" b] assms by simp

lemma tiling_min_buddy:
  assumes t: "tiling c B" and aB: "(a, j) \<in> B" and j: "j < MAX_ORDER c"
    and least: "\<forall>b\<in>B. j \<le> snd b"
  shows "(a XOR 2 ^ j, j) \<in> B"
proof -
  let ?b = "a XOR 2 ^ j"
  let ?lo = "min a ?b"
  have va: "valid_block c (a, j)" using t aB by (rule tiling_valid)
  have da: "2 ^ j dvd a" using va by (simp add: valid_block_def)
  have db: "2 ^ j dvd ?b" using da by (rule xor_pow2_dvd)
  have dlo: "2 ^ Suc j dvd ?lo" using da by (rule min_xor_pow2_dvd)
  have mx: "max a ?b = ?lo + 2 ^ j" by (rule max_xor_pow2)
  have "a < 2 ^ MAX_ORDER c" using va by (simp add: valid_block_def add_pos_pos less_le_trans[of a "a + 2 ^ j"])
  then have "?lo < 2 ^ MAX_ORDER c" by simp
  moreover have "(2::nat) ^ Suc j dvd 2 ^ MAX_ORDER c" using j by (intro le_imp_power_dvd) simp
  ultimately have top: "?lo + 2 ^ Suc j \<le> 2 ^ MAX_ORDER c" using dlo by (rule_tac dvd_less_add_le')
  have a_in: "a \<in> span (?lo, Suc j)" and b_in: "?b \<in> span (?lo, Suc j)"
    using mx by (auto simp: in_span min_def max_def split: if_splits)
  have "?b < 2 ^ MAX_ORDER c" using b_in top by (simp add: in_span)
  from tiling_cover[OF t this] obtain a' j' where blk: "(a', j') \<in> B" "?b \<in> span (a', j')"
    by auto
  have v': "valid_block c (a', j')" using t blk(1) by (rule tiling_valid)
  then have d': "2 ^ j' dvd a'" by (simp add: valid_block_def)
  have jj: "j \<le> j'" using least blk(1) by auto
  show ?thesis
  proof (cases "j' = j")
    case True
    have "?b = a'"
      using aligned_same_order[OF db d'[unfolded True], of ?b] blk(2) True by (simp add: in_span)
    then show ?thesis using blk(1) True by simp
  next
    case False
    then have "Suc j \<le> j'" using jj by simp
    from aligned_nested[OF dlo d' this b_in blk(2)]
    have "a \<in> span (a', j')" using a_in by (simp add: in_span)
    moreover have "a \<in> span (a, j)" by (simp add: in_span)
    ultimately have "(a', j') = (a, j)" using tiling_overlap[OF t blk(1) aB] by blast
    then show ?thesis using False by simp
  qed
qed

lemma least_free_top:
  assumes inv: "ainv c F N" and ne: "F j \<noteq> []" and least: "\<forall>i<j. F i = []"
    and N: "\<forall>b\<in>N. j < snd b"
  shows "j = MAX_ORDER c"
proof (rule ccontr)
  assume neq: "j \<noteq> MAX_ORDER c"
  from ne obtain a where a: "a \<in> set (F j)" by (cases "F j") auto
  have "valid_block c (a, j)" using inv a by (rule ainv_valid_free)
  then have j: "j < MAX_ORDER c" using neq by (simp add: valid_block_def)
  let ?B = "free_blocks F \<union> N"
  have "\<forall>b\<in>?B. j \<le> snd b"
  proof
    fix b assume "b \<in> ?B"
    then show "j \<le> snd b"
    proof
      assume "b \<in> free_blocks F"
      then have "F (snd b) \<noteq> []" by (cases b) auto
      then show ?thesis using least by (meson not_le)
    next
      assume "b \<in> N"
      then show ?thesis using N by auto
    qed
  qed
  from tiling_min_buddy[OF ainv_tiling[OF inv] _ j this, of a] a
  have "(a XOR 2 ^ j, j) \<in> ?B" by simp
  moreover have "(a XOR 2 ^ j, j) \<notin> N" using N by auto
  ultimately have "a XOR 2 ^ j \<in> set (F j)" by simp
  then show False using ainv_no_buddies[OF inv a] by simp
qed

lemma no_free_below:
  assumes inv: "ainv c F N" and N: "\<forall>b\<in>N. snd b = k" and k: "k \<le> MAX_ORDER c"
    and top: "\<forall>j. k \<le> j \<longrightarrow> F j = []"
  shows "F j = []"
proof (rule ccontr)
  assume "F j \<noteq> []"
  then have ex: "\<exists>j. F j \<noteq> []" by blast
  define m where "m = (LEAST j. F j \<noteq> [])"
  have m1: "F m \<noteq> []" unfolding m_def using ex by (rule LeastI_ex)
  have m2: "\<forall>i<m. F i = []" unfolding m_def using not_less_Least by blast
  have mk: "m < k" using top m1 by (meson not_le)
  then have "\<forall>b\<in>N. m < snd b" using N by simp
  from least_free_top[OF inv m1 m2 this] show False using mk k by simp
qed

lemma all_free_top:
  assumes inv: "ainv c F {}"
  shows "F = (\<lambda>k. if k = MAX_ORDER c then [0] else [])"
proof -
  let ?M = "MAX_ORDER c"
  have t: "tiling c (free_blocks F)" using ainv_tiling[OF inv] by simp
  from tiling_cover[OF t, of 0] obtain a j where aj: "a \<in> set (F j)" by auto
  then have "F j \<noteq> []" by auto
  then have ex: "\<exists>j. F j \<noteq> []" by blast
  define m where "m = (LEAST j. F j \<noteq> [])"
  have m1: "F m \<noteq> []" unfolding m_def using ex by (rule LeastI_ex)
  have m2: "\<forall>i<m. F i = []" unfolding m_def using not_less_Least by blast
  have m: "m = ?M" using least_free_top[OF inv m1 m2] by simp
  have only: "x = 0 \<and> k = ?M" if "x \<in> set (F k)" for x k
  proof -
    have v: "valid_block c (x, k)" using inv that by (rule ainv_valid_free)
    have "\<not> k < ?M" using m2 m that by auto
    then have "k = ?M" using v by (simp add: valid_block_def)
    then show ?thesis using v by (simp add: valid_block_def)
  qed
  have "F k = (if k = ?M then [0] else [])" for k
  proof (cases "k = ?M")
    case False
    then have "F k = []" using only[of _ k] by (cases "F k") auto
    then show ?thesis using False by simp
  next
    case True
    have "set (F k) \<subseteq> {0}" using only[of _ k] by auto
    moreover have "F k \<noteq> []" using m1 m True by simp
    moreover have "distinct (F k)" using inv by (rule ainv_distinct)
    ultimately have "F k = [0]"
    proof (cases "F k")
      case Nil
      then show ?thesis using \<open>F k \<noteq> []\<close> by simp
    next
      case (Cons y ys)
      then have "y = 0" "set ys \<subseteq> {0}" "y \<notin> set ys"
        using \<open>set (F k) \<subseteq> {0}\<close> \<open>distinct (F k)\<close> by auto
      then have "ys = []" by (cases ys) auto
      then show ?thesis using Cons \<open>y = 0\<close> by simp
    qed
    then show ?thesis using True by simp
  qed
  then show ?thesis by auto
qed

subsection \<open>Memory frames and linked lists\<close>

lemma frame_refl [simp]: "frame X s s"
  by (simp add: frame_def)

lemma frame_trans: "frame X s s' \<Longrightarrow> frame Y s' s'' \<Longrightarrow> frame (X \<union> Y) s s''"
  by (simp add: frame_def)

lemma frame_mono: "frame X s s' \<Longrightarrow> X \<subseteq> Y \<Longrightarrow> frame Y s s'"
  by (auto simp: frame_def)

lemma frame_freelists [simp]: "frame X s (s'\<lparr>m_freelists := fl\<rparr>) = frame X s s'"
  by (simp add: frame_def)

lemma frame_length: "frame X s s' \<Longrightarrow> length (m_buffer s') = length (m_buffer s)"
  by (simp add: frame_def)

lemma frame_nth:
  "frame X s s' \<Longrightarrow> i \<notin> X \<Longrightarrow> i < length (m_buffer s) \<Longrightarrow> m_buffer s' ! i = m_buffer s ! i"
  by (simp add: frame_def)

lemma load_ptr_off:
  "load_ptr c s (BASE c + x) =
     (if x + PTR_SIZE c \<le> length (m_buffer s)
      then Some (decode_ptr (read_bytes x (PTR_SIZE c) (m_buffer s))) else None)"
  by (simp add: load_ptr_def)

lemma store_ptr_off:
  "store_ptr c s (BASE c + x) v =
     (if x + PTR_SIZE c \<le> length (m_buffer s)
      then Some (s\<lparr>m_buffer := write_bytes x (encode_ptr (PTR_SIZE c) v) (m_buffer s)\<rparr>) else None)"
  by (simp add: store_ptr_def)

lemma store_ptr_frame:
  assumes "store_ptr c s (BASE c + x) v = Some s'"
  shows "frame {x ..< x + PTR_SIZE c} s s'" "m_freelists s' = m_freelists s" "m_dummy s' = m_dummy s"
proof -
  have le: "x + PTR_SIZE c \<le> length (m_buffer s)"
    and s': "s' = s\<lparr>m_buffer := write_bytes x (encode_ptr (PTR_SIZE c) v) (m_buffer s)\<rparr>"
    using assms by (auto simp: store_ptr_off split: if_splits)
  show "m_freelists s' = m_freelists s" "m_dummy s' = m_dummy s" by (simp_all add: s')
  show "frame {x ..< x + PTR_SIZE c} s s'"
    unfolding frame_def using le by (auto simp: s' nth_write_bytes)
qed

lemma load_store_ptr:
  assumes "store_ptr c s a v = Some s'" "v < 256 ^ PTR_SIZE c"
  shows "load_ptr c s' a = Some v"
proof -
  have le: "BASE c \<le> a" "a - BASE c + PTR_SIZE c \<le> length (m_buffer s)"
    and s': "s' = s\<lparr>m_buffer := write_bytes (a - BASE c) (encode_ptr (PTR_SIZE c) v) (m_buffer s)\<rparr>"
    using assms(1) by (auto simp: store_ptr_def split: if_splits)
  have "read_bytes (a - BASE c) (PTR_SIZE c) (m_buffer s') = encode_ptr (PTR_SIZE c) v"
    using le read_write_bytes_same[of "a - BASE c" "encode_ptr (PTR_SIZE c) v" "m_buffer s"]
    by (simp add: s')
  then show ?thesis using le assms(2) by (simp add: load_ptr_def s' decode_encode_ptr)
qed

lemma load_ptr_frame:
  assumes "frame X s s'" "X \<inter> {x ..< x + PTR_SIZE c} = {}"
  shows "load_ptr c s' (BASE c + x) = load_ptr c s (BASE c + x)"
proof (cases "x + PTR_SIZE c \<le> length (m_buffer s)")
  case True
  have "read_bytes x (PTR_SIZE c) (m_buffer s') = read_bytes x (PTR_SIZE c) (m_buffer s)"
  proof (rule read_bytes_cong[OF True frame_length[OF assms(1)]])
    fix i assume "i < PTR_SIZE c"
    then have "x + i \<notin> X" "x + i < length (m_buffer s)" using assms(2) True by auto
    then show "m_buffer s' ! (x + i) = m_buffer s ! (x + i)" using assms(1) by (simp add: frame_nth)
  qed
  then show ?thesis using True frame_length[OF assms(1)] by (simp add: load_ptr_off)
next
  case False
  then show ?thesis using frame_length[OF assms(1)] by (simp add: load_ptr_off)
qed

lemma load_byte_frame:
  assumes "frame X s s'" "m_dummy s' = m_dummy s" "0 < BASE c" "0 < x \<longrightarrow> x - 1 \<notin> X"
  shows "load_byte c s' (BASE c + x - 1) = load_byte c s (BASE c + x - 1)"
proof (cases "x = 0")
  case True
  then show ?thesis using assms(2,3) by (simp add: load_byte_def)
next
  case False
  then have eq: "BASE c + x - 1 = BASE c + (x - 1)" by simp
  show ?thesis unfolding eq using assms(1,3,4) False frame_length[OF assms(1)]
    by (auto simp: load_byte_def frame_nth)
qed

lemma store_byte_frame:
  assumes "store_byte c s (BASE c + x - 1) v = Some s'" "0 < BASE c"
  shows "frame (if 0 < x then {x - 1} else {}) s s'" "m_freelists s' = m_freelists s"
    "0 < x \<Longrightarrow> m_dummy s' = m_dummy s"
    "load_byte c s' (BASE c + x - 1) = Some v"
proof -
  show "frame (if 0 < x then {x - 1} else {}) s s'"
    using assms by (cases "x = 0") (auto simp: store_byte_def frame_def split: if_splits)
  show "m_freelists s' = m_freelists s"
    using assms by (auto simp: store_byte_def split: if_splits)
  show "0 < x \<Longrightarrow> m_dummy s' = m_dummy s"
    using assms by (auto simp: store_byte_def split: if_splits)
  show "load_byte c s' (BASE c + x - 1) = Some v"
    using assms by (auto simp: store_byte_def load_byte_def split: if_splits)
qed

lemma lpath_frame:
  assumes "frame X s s'" "\<forall>x\<in>set xs. X \<inter> {x ..< x + PTR_SIZE c} = {}"
  shows "lpath c s' h xs t = lpath c s h xs t"
  using assms(2)
proof (induction xs arbitrary: h)
  case Nil
  then show ?case by simp
next
  case (Cons x xs)
  then have "load_ptr c s' (BASE c + x) = load_ptr c s (BASE c + x)"
    using load_ptr_frame[OF assms(1)] by simp
  then show ?case using Cons by (simp split: option.splits)
qed

lemma llist_frame:
  assumes "frame X s s'" "\<forall>x\<in>set xs. X \<inter> {x ..< x + PTR_SIZE c} = {}"
  shows "llist c s' h xs = llist c s h xs"
  unfolding llist_def using assms by (rule lpath_frame)

lemma lpath_append:
  "lpath c s h (xs @ ys) t \<longleftrightarrow> (\<exists>m. lpath c s h xs m \<and> lpath c s m ys t)"
  by (induction xs arbitrary: h) (auto split: option.splits)

lemma lpath_freelists [simp]: "lpath c (s\<lparr>m_freelists := fl\<rparr>) h xs t = lpath c s h xs t"
  by (induction xs arbitrary: h) (auto simp: load_ptr_def split: option.splits)

lemma llist_freelists [simp]: "llist c (s\<lparr>m_freelists := fl\<rparr>) h xs = llist c s h xs"
  by (simp add: llist_def)

lemma llist_Nil [simp]: "llist c s h [] \<longleftrightarrow> h = 0"
  by (simp add: llist_def)

lemma llist_Cons:
  "llist c s h (x # xs) \<longleftrightarrow>
     h = BASE c + x \<and> (\<exists>n. load_ptr c s (BASE c + x) = Some n \<and> llist c s n xs)"
  by (auto simp: llist_def split: option.splits)

lemma llist_null: "0 < BASE c \<Longrightarrow> llist c s 0 xs \<longleftrightarrow> xs = []"
  by (cases xs) (auto simp: llist_Cons)

lemma llist_unique: "llist c s h xs \<Longrightarrow> llist c s h ys \<Longrightarrow> 0 < BASE c \<Longrightarrow> xs = ys"
proof (induction xs arbitrary: h ys)
  case Nil
  then show ?case by (simp add: llist_null)
next
  case (Cons x xs)
  then obtain y ys' where ys: "ys = y # ys'" by (cases ys) (auto simp: llist_Cons)
  with Cons show ?case by (auto simp: llist_Cons)
qed

subsection \<open>Blocks preserved by a step\<close>

lemma preserves_refl [simp]: "preserves c N s s"
  by (simp add: preserves_def)

lemma preserves_trans: "preserves c N s s' \<Longrightarrow> preserves c N s' s'' \<Longrightarrow> preserves c N s s''"
  by (simp add: preserves_def)

lemma preserves_mono: "preserves c N s s' \<Longrightarrow> M \<subseteq> N \<Longrightarrow> preserves c M s s'"
  by (auto simp: preserves_def)

lemma preserves_freelists [simp]:
  "preserves c N s (s'\<lparr>m_freelists := fl\<rparr>) = preserves c N s s'"
  by (simp add: preserves_def load_byte_def)

lemma load_ptr_freelists [simp]: "load_ptr c (s\<lparr>m_freelists := fl\<rparr>) a = load_ptr c s a"
  by (auto simp: load_ptr_def)

lemma load_byte_freelists [simp]: "load_byte c (s\<lparr>m_freelists := fl\<rparr>) a = load_byte c s a"
  by (simp add: load_byte_def)

lemma preserves_freelists' [simp]:
  "preserves c N (s\<lparr>m_freelists := fl\<rparr>) s' = preserves c N s s'"
  by (simp add: preserves_def)

lemma wf_link_fits:
  assumes "wf_config c" "valid_block c (a, k)"
  shows "a + PTR_SIZE c < a + 2 ^ k" "a + 2 ^ k \<le> 2 ^ MAX_ORDER c"
proof -
  have "MIN_ORDER c \<le> k" using assms(2) by (simp add: valid_block_def)
  then have "(2::nat) ^ MIN_ORDER c \<le> 2 ^ k" by (intro power_increasing) simp_all
  moreover have "PTR_SIZE c + 1 \<le> 2 ^ MIN_ORDER c" using assms(1) by (simp add: wf_config_def)
  ultimately show "a + PTR_SIZE c < a + 2 ^ k" by linarith
  show "a + 2 ^ k \<le> 2 ^ MAX_ORDER c" using assms(2) by (simp add: valid_block_def)
qed

lemma wf_addr_fits:
  "wf_config c \<Longrightarrow> x < 2 ^ MAX_ORDER c \<Longrightarrow> BASE c + x < 256 ^ PTR_SIZE c"
  by (simp add: wf_config_def MAX_ORDER_def)

lemma link_in_inner:
  assumes "wf_config c" "valid_block c (a, k)"
  shows "{a ..< a + PTR_SIZE c} \<subseteq> inner (a, k)"
  using wf_link_fits[OF assms] by (auto simp: inner_def)

lemma inner_subset_span: "inner b \<subseteq> span b"
  by (auto simp: inner_def span_def)

lemma pred_notin_inner:
  assumes "span b \<inter> span (a, k) = {}" "0 < a"
  shows "a - 1 \<notin> inner b"
proof
  assume "a - 1 \<in> inner b"
  then have "a \<in> span b" using assms(2) by (auto simp: inner_def span_def)
  moreover have "a \<in> span (a, k)" by (simp add: in_span)
  ultimately show False using assms(1) by blast
qed

lemma pred_notin_link:
  assumes "wf_config c" "valid_block c (x, j)" "span (x, j) \<inter> span (a, k) = {}" "0 < a"
  shows "a - 1 \<notin> {x ..< x + PTR_SIZE c}"
  using pred_notin_inner[OF assms(3,4)] link_in_inner[OF assms(1,2)] by blast

text \<open>A write inside a block leaves every block apart from it alone.\<close>

lemma frame_preserves:
  assumes fr: "frame X s s'" and d: "m_dummy s' = m_dummy s" and X: "X \<subseteq> inner H"
    and ap: "\<forall>b\<in>N. span b \<inter> span H = {}" and v: "\<forall>b\<in>N. valid_block c b"
    and sh: "shape c s" and wf: "wf_config c"
  shows "preserves c N s s'"
  unfolding preserves_def
proof (intro ballI conjI)
  fix b i assume b: "b \<in> N" and i: "i \<in> inner b"
  have "i \<in> span b" using i inner_subset_span by blast
  then have "i \<notin> X" using ap b X inner_subset_span[of H] by blast
  moreover have "i < length (m_buffer s)"
    using \<open>i \<in> span b\<close> v b sh by (cases b) (auto simp: shape_def valid_block_def in_span)
  ultimately show "m_buffer s' ! i = m_buffer s ! i" using fr by (simp add: frame_nth)
next
  fix b assume b: "b \<in> N"
  obtain q kq where bq: "b = (q, kq)" by (cases b)
  have "0 < q \<longrightarrow> q - 1 \<notin> X"
  proof
    assume "0 < q"
    obtain a k where H: "H = (a, k)" by (cases H)
    have "span H \<inter> span (q, kq) = {}" using ap b bq by blast
    then have "q - 1 \<notin> inner H" using \<open>0 < q\<close> by (rule pred_notin_inner)
    then show "q - 1 \<notin> X" using X by blast
  qed
  then show "load_byte c s' (BASE c + fst b - 1) = load_byte c s (BASE c + fst b - 1)"
    using load_byte_frame[OF fr d, of c q] wf by (simp add: bq wf_config_def)
qed

lemma frame_llist:
  assumes fr: "frame X s s'" and X: "X \<subseteq> inner H"
    and ap: "\<forall>x\<in>set xs. span (x, k) \<inter> span H = {}" and v: "\<forall>x\<in>set xs. valid_block c (x, k)"
    and wf: "wf_config c"
  shows "llist c s' h xs = llist c s h xs"
proof (rule llist_frame[OF fr], rule ballI)
  fix x assume x: "x \<in> set xs"
  have "{x ..< x + PTR_SIZE c} \<subseteq> span (x, k)"
    using link_in_inner[OF wf, of x k] v x inner_subset_span[of "(x, k)"] by blast
  then show "X \<inter> {x ..< x + PTR_SIZE c} = {}"
    using ap x X inner_subset_span[of H] by blast
qed

lemma rep_shape: "rep c s F \<Longrightarrow> shape c s"
  by (simp add: rep_def)

lemma rep_llist:
  "rep c s F \<Longrightarrow> MIN_ORDER c \<le> k \<Longrightarrow> k \<le> MAX_ORDER c \<Longrightarrow>
   llist c s (m_freelists s ! (k - MIN_ORDER c)) (F k)"
  by (simp add: rep_def)

lemma rep_head:
  assumes "rep c s F" "MIN_ORDER c \<le> k" "k \<le> MAX_ORDER c"
  shows "m_freelists s ! (k - MIN_ORDER c) = (case F k of [] \<Rightarrow> 0 | x # _ \<Rightarrow> BASE c + x)"
  using rep_llist[OF assms] by (cases "F k") (auto simp: llist_Cons)

lemma rep_head_null:
  assumes "rep c s F" "MIN_ORDER c \<le> k" "k \<le> MAX_ORDER c" "wf_config c"
  shows "m_freelists s ! (k - MIN_ORDER c) = 0 \<longleftrightarrow> F k = []"
  using rep_head[OF assms(1-3)] assms(4) by (cases "F k") (auto simp: wf_config_def)

lemma slot_in_range:
  "shape c s \<Longrightarrow> MIN_ORDER c \<le> k \<Longrightarrow> k \<le> MAX_ORDER c \<Longrightarrow> k - MIN_ORDER c < length (m_freelists s)"
  by (simp add: shape_def)

text \<open>Pushing a block on its free list (lines 111-112 and 147-148).\<close>

lemma push_step:
  assumes wf: "wf_config c" and rp: "rep c s F" and vH: "valid_block c (a, k)"
    and ap: "\<forall>j. \<forall>x\<in>set (F j). span (x, j) \<inter> span (a, k) = {}"
    and vF: "\<forall>j. \<forall>x\<in>set (F j). valid_block c (x, j)"
  shows "\<exists>s'. store_ptr c s (BASE c + a) (m_freelists s ! (k - MIN_ORDER c)) = Some s' \<and>
           rep c (s'\<lparr>m_freelists := (m_freelists s')[k - MIN_ORDER c := BASE c + a]\<rparr>) (F(k := a # F k)) \<and>
           frame {a ..< a + PTR_SIZE c} s s' \<and> m_dummy s' = m_dummy s \<and>
           m_freelists s' = m_freelists s"
proof -
  let ?h = "m_freelists s ! (k - MIN_ORDER c)"
  have sh: "shape c s" using rp by (rule rep_shape)
  have k: "MIN_ORDER c \<le> k" "k \<le> MAX_ORDER c" using vH by (simp_all add: valid_block_def)
  have fits: "a + PTR_SIZE c \<le> length (m_buffer s)"
    using wf_link_fits[OF wf vH] sh by (simp add: shape_def)
  then obtain s' where s': "store_ptr c s (BASE c + a) ?h = Some s'" by (simp add: store_ptr_off)
  note fr = store_ptr_frame[OF s']
  let ?s'' = "s'\<lparr>m_freelists := (m_freelists s')[k - MIN_ORDER c := BASE c + a]\<rparr>"
  have sh'': "shape c ?s''" using sh fr(2) frame_length[OF fr(1)] by (simp add: shape_def)
  have keep: "llist c s' h (F j) = llist c s h (F j)" for h j
  proof (rule frame_llist[OF fr(1) link_in_inner[OF wf vH] _ _ wf])
    show "\<forall>x\<in>set (F j). span (x, j) \<inter> span (a, k) = {}" using ap by simp
    show "\<forall>x\<in>set (F j). valid_block c (x, j)" using vF by simp
  qed
  have hval: "?h < 256 ^ PTR_SIZE c"
  proof (cases "F k")
    case Nil
    then show ?thesis using rep_head[OF rp k] by simp
  next
    case (Cons x xs)
    then have "valid_block c (x, k)" using vF by simp
    then have "x < 2 ^ MAX_ORDER c" using valid_block_lt[of c x k x] by (simp add: in_span)
    then show ?thesis using rep_head[OF rp k] Cons wf_addr_fits[OF wf] by simp
  qed
  have ld: "load_ptr c s' (BASE c + a) = Some ?h" using s' hval by (rule load_store_ptr)
  have "llist c ?s'' (m_freelists ?s'' ! (j - MIN_ORDER c)) ((F(k := a # F k)) j)"
    if j: "MIN_ORDER c \<le> j" "j \<le> MAX_ORDER c" for j
  proof (cases "j = k")
    case True
    have "llist c s' ?h (F k)" using keep rep_llist[OF rp k] by simp
    then show ?thesis using True ld slot_in_range[OF sh k] fr(2) by (simp add: llist_Cons)
  next
    case False
    then have "j - MIN_ORDER c \<noteq> k - MIN_ORDER c" using j k by simp
    then show ?thesis using False keep rep_llist[OF rp j] fr(2) by simp
  qed
  then have "rep c ?s'' (F(k := a # F k))" using sh'' unfolding rep_def by blast
  then show ?thesis using s' fr by blast
qed

subsection \<open>The split loop of alloc\<close>

lemma ainv_apart_free:
  assumes "ainv c F N" "H \<in> N" "x \<in> set (F j)"
  shows "span (x, j) \<inter> span H = {}"
proof (rule ccontr)
  assume "span (x, j) \<inter> span H \<noteq> {}"
  then obtain y where "y \<in> span (x, j)" "y \<in> span H" by blast
  then have "(x, j) = H"
    using tiling_overlap[OF ainv_tiling[OF assms(1)], of "(x, j)" H y] assms(2,3) by simp
  then show False using ainv_disjoint[OF assms(1,3)] assms(2) by simp
qed

lemma ainv_apart_N:
  assumes "ainv c F N" "H \<in> N" "b \<in> N" "b \<noteq> H"
  shows "span b \<inter> span H = {}"
proof (rule ccontr)
  assume "span b \<inter> span H \<noteq> {}"
  then obtain y where "y \<in> span b" "y \<in> span H" by blast
  then have "b = H"
    using tiling_overlap[OF ainv_tiling[OF assms(1)], of b H y] assms(2,3) by simp
  then show False using assms(4) by simp
qed

lemma buddy_of_lower:
  "2 ^ Suc i dvd a \<Longrightarrow> buddy_of c (BASE c + a) i = BASE c + (a + 2 ^ i)"
  by (simp add: buddy_of_def xor_pow2_aligned)

lemma buddy_of_off: "buddy_of c (BASE c + a) k = BASE c + (a XOR 2 ^ k)"
  by (simp add: buddy_of_def)

lemma split_step:
  assumes wf: "wf_config c" and rp: "rep c s F" and inv: "ainv c F N"
    and aN: "(a, Suc i) \<in> N" and mi: "MIN_ORDER c \<le> i"
  shows "\<exists>s'. store_ptr c s (buddy_of c (BASE c + a) i) (m_freelists s ! (i - MIN_ORDER c)) = Some s' \<and>
           rep c (s'\<lparr>m_freelists := (m_freelists s')[i - MIN_ORDER c := buddy_of c (BASE c + a) i]\<rparr>)
             (F(i := (a + 2 ^ i) # F i)) \<and>
           preserves c (N - {(a, Suc i)}) s s' \<and> m_dummy s' = m_dummy s"
proof -
  have v: "valid_block c (a, Suc i)" using inv aN by (rule ainv_valid_N)
  note vh = valid_block_halves[OF v mi]
  have sub: "span (a + 2 ^ i, i) \<subseteq> span (a, Suc i)" by (simp add: span_Suc)
  have bo: "buddy_of c (BASE c + a) i = BASE c + (a + 2 ^ i)"
    using v by (intro buddy_of_lower) (simp add: valid_block_def)
  have ap: "\<forall>j. \<forall>x\<in>set (F j). span (x, j) \<inter> span (a + 2 ^ i, i) = {}"
    using ainv_apart_free[OF inv aN] sub by blast
  have vF: "\<forall>j. \<forall>x\<in>set (F j). valid_block c (x, j)" using ainv_valid_free[OF inv] by blast
  from push_step[OF wf rp vh(2) ap vF] obtain s' where
    s': "store_ptr c s (BASE c + (a + 2 ^ i)) (m_freelists s ! (i - MIN_ORDER c)) = Some s'"
      "rep c (s'\<lparr>m_freelists := (m_freelists s')[i - MIN_ORDER c := BASE c + (a + 2 ^ i)]\<rparr>)
         (F(i := (a + 2 ^ i) # F i))"
      "frame {a + 2 ^ i ..< a + 2 ^ i + PTR_SIZE c} s s'" "m_dummy s' = m_dummy s"
    by blast
  have "preserves c (N - {(a, Suc i)}) s s'"
  proof (rule frame_preserves[OF s'(3,4) link_in_inner[OF wf vh(2)] _ _ rep_shape[OF rp] wf])
    show "\<forall>b\<in>N - {(a, Suc i)}. span b \<inter> span (a + 2 ^ i, i) = {}"
      using ainv_apart_N[OF inv aN] sub by blast
    show "\<forall>b\<in>N - {(a, Suc i)}. valid_block c b" using ainv_valid_N[OF inv] by blast
  qed
  then show ?thesis using s' bo by auto
qed

lemma if_empty_range [simp]: "(\<lambda>j. if n \<le> j \<and> j < (n::nat) then f j else g j) = g"
  by (auto simp: fun_eq_iff)

lemma split_loop_spec:
  "wf_config c \<Longrightarrow> rep c s F \<Longrightarrow> ainv c F N \<Longrightarrow> (a, index) \<in> N \<Longrightarrow>
   MIN_ORDER c \<le> order \<Longrightarrow> order \<le> index \<Longrightarrow>
   \<exists>s'. alloc_split_loop c s (BASE c + a) index order = Some s' \<and>
        rep c s' (\<lambda>i. if order \<le> i \<and> i < index then (a + 2 ^ i) # F i else F i) \<and>
        ainv c (\<lambda>i. if order \<le> i \<and> i < index then (a + 2 ^ i) # F i else F i)
          (insert (a, order) (N - {(a, index)})) \<and>
        preserves c (N - {(a, index)}) s s' \<and> m_dummy s' = m_dummy s"
proof (induction index arbitrary: s F N)
  case 0
  then have "order = 0" by simp
  then show ?case using 0 by (simp add: alloc_split_loop.simps insert_absorb)
next
  case (Suc i)
  show ?case
  proof (cases "order = Suc i")
    case True
    then show ?thesis using Suc.prems by (simp add: alloc_split_loop.simps insert_absorb)
  next
    case False
    then have oi: "order \<le> i" "order < Suc i" using Suc.prems by simp_all
    then have mi: "MIN_ORDER c \<le> i" using Suc.prems by simp
    let ?F1 = "F(i := (a + 2 ^ i) # F i)"
    let ?N1 = "insert (a, i) (N - {(a, Suc i)})"
    from split_step[OF Suc.prems(1-4) mi] obtain s1 where
      s1: "store_ptr c s (buddy_of c (BASE c + a) i) (m_freelists s ! (i - MIN_ORDER c)) = Some s1"
        "rep c (s1\<lparr>m_freelists := (m_freelists s1)[i - MIN_ORDER c := buddy_of c (BASE c + a) i]\<rparr>) ?F1"
        "preserves c (N - {(a, Suc i)}) s s1" "m_dummy s1 = m_dummy s"
      by blast
    let ?s1 = "s1\<lparr>m_freelists := (m_freelists s1)[i - MIN_ORDER c := buddy_of c (BASE c + a) i]\<rparr>"
    have inv1: "ainv c ?F1 ?N1" using Suc.prems(3,4) mi by (rule ainv_split)
    have aN1: "(a, i) \<in> ?N1" by simp
    from Suc.IH[OF Suc.prems(1) s1(2) inv1 aN1 Suc.prems(5) oi(1)] obtain s' where
      s': "alloc_split_loop c ?s1 (BASE c + a) i order = Some s'"
        "rep c s' (\<lambda>j. if order \<le> j \<and> j < i then (a + 2 ^ j) # ?F1 j else ?F1 j)"
        "ainv c (\<lambda>j. if order \<le> j \<and> j < i then (a + 2 ^ j) # ?F1 j else ?F1 j)
           (insert (a, order) (?N1 - {(a, i)}))"
        "preserves c (?N1 - {(a, i)}) ?s1 s'" "m_dummy s' = m_dummy ?s1"
      by blast
    have Feq: "(\<lambda>j. if order \<le> j \<and> j < i then (a + 2 ^ j) # ?F1 j else ?F1 j) =
               (\<lambda>j. if order \<le> j \<and> j < Suc i then (a + 2 ^ j) # F j else F j)"
      using oi by (auto simp: fun_eq_iff)
    have naN: "(a, i) \<notin> N"
    proof
      assume "(a, i) \<in> N"
      then have "span (a, i) \<inter> span (a, Suc i) = {}"
        using ainv_apart_N[OF Suc.prems(3,4), of "(a, i)"] by simp
      moreover have "a \<in> span (a, i)" "a \<in> span (a, Suc i)" by (simp_all add: in_span)
      ultimately show False by blast
    qed
    have Neq: "?N1 - {(a, i)} = N - {(a, Suc i)}" using naN by auto
    have run: "alloc_split_loop c s (BASE c + a) (Suc i) order = Some s'"
      using oi(2) s1(1) s'(1) by (subst alloc_split_loop.simps) simp
    have pres: "preserves c (N - {(a, Suc i)}) s s'"
      using s1(3) s'(4) unfolding Neq by (simp add: preserves_trans[of c _ s s1 s'])
    show ?thesis using run s'(2,3,5) s1(4) pres unfolding Feq Neq by simp
  qed
qed

lemma pop_step:
  assumes rp: "rep c s F" and Fj: "F j = x # rest"
    and j: "MIN_ORDER c \<le> j" "j \<le> MAX_ORDER c"
  shows "\<exists>n. load_ptr c s (BASE c + x) = Some n \<and>
           rep c (s\<lparr>m_freelists := (m_freelists s)[j - MIN_ORDER c := n]\<rparr>) (F(j := rest))"
proof -
  have sh: "shape c s" using rp by (rule rep_shape)
  from rep_llist[OF rp j] Fj obtain n where
    n: "load_ptr c s (BASE c + x) = Some n" "llist c s n rest" by (auto simp: llist_Cons)
  let ?s' = "s\<lparr>m_freelists := (m_freelists s)[j - MIN_ORDER c := n]\<rparr>"
  have "llist c ?s' (m_freelists ?s' ! (k - MIN_ORDER c)) ((F(j := rest)) k)"
    if k: "MIN_ORDER c \<le> k" "k \<le> MAX_ORDER c" for k
  proof (cases "k = j")
    case True
    then show ?thesis using n(2) slot_in_range[OF sh j] by simp
  next
    case False
    then have "k - MIN_ORDER c \<noteq> j - MIN_ORDER c" using j k by simp
    then show ?thesis using False rep_llist[OF rp k] by simp
  qed
  moreover have "shape c ?s'" using sh by (simp add: shape_def)
  ultimately have "rep c ?s' (F(j := rest))" unfolding rep_def by blast
  then show ?thesis using n(1) by blast
qed

subsection \<open>The order byte and the search of alloc\<close>

lemma valid_block_off_lt: "valid_block c (a, k) \<Longrightarrow> a < 2 ^ MAX_ORDER c"
  using valid_block_lt[of c a k a] by (simp add: in_span)

lemma obyte_step:
  assumes wf: "wf_config c" and rp: "rep c s F" and inv: "ainv c F N" and aN: "(a, k) \<in> N"
  shows "\<exists>s'. store_byte c s (BASE c + a - 1) v = Some s' \<and> rep c s' F \<and>
           preserves c (N - {(a, k)}) s s' \<and> load_byte c s' (BASE c + a - 1) = Some v"
proof -
  have sh: "shape c s" using rp by (rule rep_shape)
  have B: "0 < BASE c" using wf by (simp add: wf_config_def)
  have va: "valid_block c (a, k)" using inv aN by (rule ainv_valid_N)
  then have alt: "a < length (m_buffer s)"
    using sh valid_block_lt[of c a k a] by (simp add: shape_def in_span)
  have "\<exists>s'. store_byte c s (BASE c + a - 1) v = Some s'"
  proof (cases "a = 0")
    case True
    then show ?thesis using B by (simp add: store_byte_def)
  next
    case False
    then have eq: "BASE c + a - 1 = BASE c + (a - 1)" by simp
    have "a - 1 < length (m_buffer s)" using alt by simp
    then show ?thesis unfolding eq using False by (simp add: store_byte_def)
  qed
  then obtain s' where s': "store_byte c s (BASE c + a - 1) v = Some s'" by blast
  let ?X = "if 0 < a then {a - 1} else {}"
  note fr = store_byte_frame[OF s' B]
  have sh': "shape c s'" using sh fr(2) frame_length[OF fr(1)] by (simp add: shape_def)
  have "llist c s' (m_freelists s' ! (j - MIN_ORDER c)) (F j)"
    if j: "MIN_ORDER c \<le> j" "j \<le> MAX_ORDER c" for j
  proof -
    have "llist c s' h (F j) = llist c s h (F j)" for h
    proof (rule llist_frame[OF fr(1)], rule ballI)
      fix x assume x: "x \<in> set (F j)"
      show "?X \<inter> {x ..< x + PTR_SIZE c} = {}"
      proof (cases "0 < a")
        case True
        have "a - 1 \<notin> {x ..< x + PTR_SIZE c}"
          using wf ainv_valid_free[OF inv x] ainv_apart_free[OF inv aN x] True
          by (rule pred_notin_link)
        then show ?thesis using True by simp
      next
        case False
        then show ?thesis by simp
      qed
    qed
    then show ?thesis using rep_llist[OF rp j] fr(2) by simp
  qed
  then have rp': "rep c s' F" using sh' unfolding rep_def by blast
  have "preserves c (N - {(a, k)}) s s'"
    unfolding preserves_def
  proof (intro ballI conjI)
    fix b i assume b: "b \<in> N - {(a, k)}" and i: "i \<in> inner b"
    have ap: "span b \<inter> span (a, k) = {}" using ainv_apart_N[OF inv aN] b by blast
    have "i \<notin> ?X" using pred_notin_inner[OF ap] i by (cases "0 < a") auto
    moreover have "i < length (m_buffer s)"
      using i inner_subset_span[of b] ainv_valid_N[OF inv, of b] b sh
      by (cases b) (auto simp: shape_def valid_block_def in_span)
    ultimately show "m_buffer s' ! i = m_buffer s ! i" using fr(1) by (simp add: frame_nth)
  next
    fix b assume b: "b \<in> N - {(a, k)}"
    obtain q kq where bq: "b = (q, kq)" by (cases b)
    have ap: "span (q, kq) \<inter> span (a, k) = {}" using ainv_apart_N[OF inv aN] b bq by blast
    have qa: "q \<noteq> a"
    proof
      assume "q = a"
      then have "a \<in> span (q, kq)" "a \<in> span (a, k)" by (simp_all add: in_span)
      then show False using ap by blast
    qed
    show "load_byte c s' (BASE c + fst b - 1) = load_byte c s (BASE c + fst b - 1)"
    proof (cases "0 < a")
      case True
      have "0 < q \<longrightarrow> q - 1 \<notin> ?X" using qa True by auto
      then show ?thesis using load_byte_frame[OF fr(1) fr(3)[OF True] B, of q] by (simp add: bq)
    next
      case False
      then have q: "0 < q" using qa by simp
      then have eq: "BASE c + q - 1 = BASE c + (q - 1)" by simp
      have "valid_block c (q, kq)" using ainv_valid_N[OF inv, of b] b bq by simp
      then have "q - 1 < length (m_buffer s)"
        using valid_block_off_lt[of c q kq] sh by (simp add: shape_def)
      then show ?thesis using False fr(1) B q
        by (simp add: bq eq load_byte_def frame_length frame_nth)
    qed
  qed
  then show ?thesis using s' rp' fr(4) by blast
qed

lemma alloc_find_loop_spec:
  "index \<le> MAX_ORDER c \<Longrightarrow>
   \<exists>j. alloc_find_loop c s (m_freelists s ! (index - MIN_ORDER c)) index =
          (m_freelists s ! (j - MIN_ORDER c), j) \<and>
        index \<le> j \<and> j \<le> MAX_ORDER c \<and>
        (\<forall>i. index \<le> i \<and> i < j \<longrightarrow> m_freelists s ! (i - MIN_ORDER c) = 0) \<and>
        (m_freelists s ! (j - MIN_ORDER c) = 0 \<longrightarrow> j = MAX_ORDER c)"
proof (induction "MAX_ORDER c - index" arbitrary: index)
  case 0
  then have "index = MAX_ORDER c" by simp
  then have "alloc_find_loop c s (m_freelists s ! (index - MIN_ORDER c)) index =
       (m_freelists s ! (index - MIN_ORDER c), index)"
    by (subst alloc_find_loop.simps) simp
  then show ?case using \<open>index = MAX_ORDER c\<close> by (intro exI[of _ index]) simp
next
  case (Suc n)
  have lt: "index < MAX_ORDER c" using Suc(2) by simp
  show ?case
  proof (cases "m_freelists s ! (index - MIN_ORDER c) = 0")
    case False
    then have "alloc_find_loop c s (m_freelists s ! (index - MIN_ORDER c)) index =
       (m_freelists s ! (index - MIN_ORDER c), index)"
      by (subst alloc_find_loop.simps) simp
    then show ?thesis using lt False by (intro exI[of _ index]) simp
  next
    case True
    have "n = MAX_ORDER c - Suc index" "Suc index \<le> MAX_ORDER c" using Suc(2) by linarith+
    from Suc(1)[OF this] have "\<exists>j. alloc_find_loop c s (m_freelists s ! (Suc index - MIN_ORDER c)) (Suc index) =
            (m_freelists s ! (j - MIN_ORDER c), j) \<and>
         Suc index \<le> j \<and> j \<le> MAX_ORDER c \<and>
         (\<forall>i. Suc index \<le> i \<and> i < j \<longrightarrow> m_freelists s ! (i - MIN_ORDER c) = 0) \<and>
         (m_freelists s ! (j - MIN_ORDER c) = 0 \<longrightarrow> j = MAX_ORDER c)" .
    then obtain j where
      j1: "alloc_find_loop c s (m_freelists s ! (Suc index - MIN_ORDER c)) (Suc index) =
            (m_freelists s ! (j - MIN_ORDER c), j)"
      and j2: "Suc index \<le> j" and j3: "j \<le> MAX_ORDER c"
      and j4: "\<forall>i. Suc index \<le> i \<and> i < j \<longrightarrow> m_freelists s ! (i - MIN_ORDER c) = 0"
      and j5: "m_freelists s ! (j - MIN_ORDER c) = 0 \<longrightarrow> j = MAX_ORDER c"
      by (elim exE conjE)
    have all: "\<forall>i. index \<le> i \<and> i < j \<longrightarrow> m_freelists s ! (i - MIN_ORDER c) = 0"
    proof (intro allI impI)
      fix i assume i: "index \<le> i \<and> i < j"
      show "m_freelists s ! (i - MIN_ORDER c) = 0"
      proof (cases "i = index")
        case True
        then show ?thesis using \<open>m_freelists s ! (index - MIN_ORDER c) = 0\<close> by simp
      next
        case False
        then have "Suc index \<le> i \<and> i < j" using i by simp
        then show ?thesis using j4 by blast
      qed
    qed
    have "alloc_find_loop c s (m_freelists s ! (index - MIN_ORDER c)) index =
            (m_freelists s ! (j - MIN_ORDER c), j)"
      using True lt j1 by (subst alloc_find_loop.simps) simp
    moreover have "index \<le> j" using j2 by simp
    ultimately show ?thesis using j3 j5 all by (intro exI[of _ j] conjI)
  qed
qed

lemma alloc_find_loop_first:
  assumes wf: "wf_config c" and rp: "rep c s F" and o: "MIN_ORDER c \<le> order"
    and j: "order \<le> j" "j \<le> MAX_ORDER c" "F j \<noteq> []"
    and least: "\<forall>i. order \<le> i \<and> i < j \<longrightarrow> F i = []"
  shows "alloc_find_loop c s (m_freelists s ! (order - MIN_ORDER c)) order =
           (m_freelists s ! (j - MIN_ORDER c), j)"
proof -
  have ol: "order \<le> MAX_ORDER c" using j by simp
  from alloc_find_loop_spec[OF ol, of s] obtain j' where
    j': "alloc_find_loop c s (m_freelists s ! (order - MIN_ORDER c)) order =
            (m_freelists s ! (j' - MIN_ORDER c), j')"
        "order \<le> j'" "j' \<le> MAX_ORDER c"
        "\<forall>i. order \<le> i \<and> i < j' \<longrightarrow> m_freelists s ! (i - MIN_ORDER c) = 0"
        "m_freelists s ! (j' - MIN_ORDER c) = 0 \<longrightarrow> j' = MAX_ORDER c"
    by (elim exE conjE)
  have "\<not> j < j'"
  proof
    assume "j < j'"
    then have "m_freelists s ! (j - MIN_ORDER c) = 0" using j'(4) j(1) by simp
    then show False using rep_head_null[OF rp _ j(2) wf] o j(1,3) by simp
  qed
  moreover have "\<not> j' < j"
  proof
    assume lt: "j' < j"
    then have "F j' = []" using least j'(2) by simp
    then have "m_freelists s ! (j' - MIN_ORDER c) = 0"
      using rep_head_null[OF rp _ j'(3) wf] o j'(2) by simp
    then show False using j'(5) lt j(2) by simp
  qed
  ultimately have "j' = j" by simp
  then show ?thesis using j'(1) by simp
qed

lemma alloc_find_loop_none:
  assumes wf: "wf_config c" and rp: "rep c s F" and o: "MIN_ORDER c \<le> order" "order \<le> MAX_ORDER c"
    and none: "\<forall>i. order \<le> i \<and> i \<le> MAX_ORDER c \<longrightarrow> F i = []"
  shows "fst (alloc_find_loop c s (m_freelists s ! (order - MIN_ORDER c)) order) = 0"
proof -
  from alloc_find_loop_spec[OF o(2), of s] obtain j' where
    j': "alloc_find_loop c s (m_freelists s ! (order - MIN_ORDER c)) order =
            (m_freelists s ! (j' - MIN_ORDER c), j')"
        "order \<le> j'" "j' \<le> MAX_ORDER c"
    by (elim exE conjE)
  have "F j' = []" using none j'(2,3) by simp
  then have "m_freelists s ! (j' - MIN_ORDER c) = 0"
    using rep_head_null[OF rp _ j'(3) wf] o j'(2) by simp
  then show ?thesis using j'(1) by simp
qed

subsection \<open>The function alloc\<close>

lemma alloc_undefined: "log2 (sz + 1) = None \<Longrightarrow> alloc c s sz = None"
  by (simp add: alloc_def)

lemma alloc_rejected:
  "log2 (sz + 1) = Some l \<Longrightarrow> sz = 0 \<or> MAX_ORDER c < max (MIN_ORDER c) l \<Longrightarrow>
   alloc c s sz = Some (0, s)"
  by (simp add: alloc_def)

lemma alloc_exhausted:
  assumes wf: "wf_config c" and rp: "rep c s F" and l: "log2 (sz + 1) = Some l"
    and none: "\<forall>i. max (MIN_ORDER c) l \<le> i \<and> i \<le> MAX_ORDER c \<longrightarrow> F i = []"
  shows "alloc c s sz = Some (0, s)"
proof (cases "sz = 0 \<or> MAX_ORDER c < max (MIN_ORDER c) l")
  case True
  with l show ?thesis by (rule alloc_rejected)
next
  case False
  then have o: "MIN_ORDER c \<le> max (MIN_ORDER c) l" "max (MIN_ORDER c) l \<le> MAX_ORDER c"
    by (simp_all add: not_less)
  from alloc_find_loop_none[OF wf rp o none]
  show ?thesis using False l by (auto simp: alloc_def Let_def split: prod.splits)
qed

lemma alloc_success:
  assumes wf: "wf_config c" and rp: "rep c s F" and inv: "ainv c F N"
    and l: "log2 (sz + 1) = Some l" and order: "order = max (MIN_ORDER c) l"
    and nz: "sz \<noteq> 0" and j: "order \<le> j" "j \<le> MAX_ORDER c" and Fj: "F j = x # rest"
    and least: "\<forall>i. order \<le> i \<and> i < j \<longrightarrow> F i = []"
  defines "F' \<equiv> (\<lambda>i. if order \<le> i \<and> i < j then (x + 2 ^ i) # F i else if i = j then rest else F i)"
  shows "\<exists>s'. alloc c s sz = Some (BASE c + x, s') \<and> rep c s' F' \<and>
           ainv c F' (insert (x, order) N) \<and> (x, order) \<notin> N \<and> preserves c N s s' \<and>
           load_byte c s' (BASE c + x - 1) = Some (word_of_nat order)"
proof -
  have B: "0 < BASE c" using wf by (simp add: wf_config_def)
  have o: "MIN_ORDER c \<le> order" using order by simp
  have mj: "MIN_ORDER c \<le> j" using o j by simp
  have "F j \<noteq> []" using Fj by simp
  from alloc_find_loop_first[OF wf rp o j this least]
  have fl: "alloc_find_loop c s (m_freelists s ! (order - MIN_ORDER c)) order =
              (m_freelists s ! (j - MIN_ORDER c), j)" .
  have head: "m_freelists s ! (j - MIN_ORDER c) = BASE c + x"
    using rep_head[OF rp mj j(2)] Fj by simp
  let ?F1 = "F(j := rest)"
  from pop_step[OF rp Fj mj j(2)] obtain n where
    n: "load_ptr c s (BASE c + x) = Some n"
    and rp1: "rep c (s\<lparr>m_freelists := (m_freelists s)[j - MIN_ORDER c := n]\<rparr>) ?F1"
    by (elim exE conjE)
  let ?s1 = "s\<lparr>m_freelists := (m_freelists s)[j - MIN_ORDER c := n]\<rparr>"
  have inv1: "ainv c ?F1 (insert (x, j) N)" using inv Fj by (rule ainv_pop)
  have xj: "x \<in> set (F j)" using Fj by simp
  have xjN: "(x, j) \<notin> N" using inv xj by (rule ainv_disjoint)
  then have N1: "insert (x, j) N - {(x, j)} = N" by simp
  have F2: "(\<lambda>i. if order \<le> i \<and> i < j then (x + 2 ^ i) # ?F1 i else ?F1 i) = F'"
    unfolding F'_def by (auto simp: fun_eq_iff)
  have xin: "(x, j) \<in> insert (x, j) N" by simp
  from split_loop_spec[OF wf rp1 inv1 xin o j(1)] obtain s2 where
    s2: "alloc_split_loop c ?s1 (BASE c + x) j order = Some s2"
    and rp2: "rep c s2 F'" and inv2: "ainv c F' (insert (x, order) N)"
    and pr2: "preserves c N ?s1 s2"
    unfolding N1 F2 by (elim exE conjE)
  have xin2: "(x, order) \<in> insert (x, order) N" by simp
  from obyte_step[OF wf rp2 inv2 xin2, of "word_of_nat order"] obtain s3 where
    s3: "store_byte c s2 (BASE c + x - 1) (word_of_nat order) = Some s3"
    and rp3: "rep c s3 F'" and pr3: "preserves c (insert (x, order) N - {(x, order)}) s2 s3"
    and ob: "load_byte c s3 (BASE c + x - 1) = Some (word_of_nat order)"
    by (elim exE conjE)
  have xoN: "(x, order) \<notin> N"
  proof
    assume "(x, order) \<in> N"
    from ainv_apart_free[OF inv this xj] have "span (x, j) \<inter> span (x, order) = {}" .
    moreover have "x \<in> span (x, j)" "x \<in> span (x, order)" by (simp_all add: in_span)
    ultimately show False by blast
  qed
  then have "insert (x, order) N - {(x, order)} = N" by simp
  then have "preserves c N s2 s3" using pr3 by simp
  then have pr: "preserves c N s s3" using pr2 by (simp add: preserves_trans[of c N s s2 s3])
  have om: "\<not> MAX_ORDER c < max (MIN_ORDER c) l" using j order by linarith
  have "alloc c s sz = Some (BASE c + x, s3)"
    using l nz om fl[unfolded order head] B n s2[unfolded order] s3[unfolded order]
    by (simp add: alloc_def Let_def)
  then show ?thesis using rp3 inv2 xoN pr ob by blast
qed

subsection \<open>The search of free\<close>

lemma frame_lpath:
  assumes fr: "frame X s s'" and X: "X \<subseteq> inner H"
    and ap: "\<forall>x\<in>set xs. span (x, k) \<inter> span H = {}" and v: "\<forall>x\<in>set xs. valid_block c (x, k)"
    and wf: "wf_config c"
  shows "lpath c s' h xs t = lpath c s h xs t"
proof (rule lpath_frame[OF fr], rule ballI)
  fix x assume x: "x \<in> set xs"
  have "{x ..< x + PTR_SIZE c} \<subseteq> span (x, k)"
    using link_in_inner[OF wf, of x k] v x inner_subset_span[of "(x, k)"] by blast
  then show "X \<inter> {x ..< x + PTR_SIZE c} = {}"
    using ap x X inner_subset_span[of H] by blast
qed

lemma ainv_apart_free_free:
  assumes "ainv c F N" "x \<in> set (F j)" "y \<in> set (F k)" "(x, j) \<noteq> (y, k)"
  shows "span (x, j) \<inter> span (y, k) = {}"
proof (rule ccontr)
  assume "span (x, j) \<inter> span (y, k) \<noteq> {}"
  then obtain z where "z \<in> span (x, j)" "z \<in> span (y, k)" by blast
  then have "(x, j) = (y, k)"
    using tiling_overlap[OF ainv_tiling[OF assms(1)], of "(x, j)" "(y, k)" z] assms(2,3) by simp
  then show False using assms(4) by simp
qed

lemma find_absent:
  assumes B: "0 < BASE c"
  shows "load_loc c s ptr = Some h \<Longrightarrow> llist c s h xs \<Longrightarrow> b \<notin> set xs \<Longrightarrow>
         \<exists>ptr'. free_find_loop c s (BASE c + b) ptr = Some ptr' \<and> load_loc c s ptr' = Some 0"
proof (induction xs arbitrary: ptr h)
  case Nil
  then have "h = 0" by simp
  then have "free_find_loop c s (BASE c + b) ptr = Some ptr"
    using Nil(1) by (subst free_find_loop.simps) simp
  then show ?case using Nil(1) \<open>h = 0\<close> by simp
next
  case (Cons x xs)
  from Cons(3) obtain n where h: "h = BASE c + x"
    and n: "load_ptr c s (BASE c + x) = Some n" and l: "llist c s n xs"
    by (auto simp: llist_Cons)
  have xb: "x \<noteq> b" "b \<notin> set xs" using Cons(4) by auto
  have ll: "load_loc c s (Link (BASE c + x)) = Some n" using n by simp
  from Cons.IH[OF ll l xb(2)] obtain ptr' where
    p: "free_find_loop c s (BASE c + b) (Link (BASE c + x)) = Some ptr'"
    and p0: "load_loc c s ptr' = Some 0" by (elim exE conjE)
  have "free_find_loop c s (BASE c + b) ptr = Some ptr'"
    using Cons(2) h xb(1) B p by (subst free_find_loop.simps) simp
  then show ?case using p0 by simp
qed

lemma find_present:
  assumes B: "0 < BASE c"
  shows "load_loc c s ptr = Some h \<Longrightarrow> lpath c s h ys (BASE c + b) \<Longrightarrow> b \<notin> set ys \<Longrightarrow>
         free_find_loop c s (BASE c + b) ptr =
           Some (if ys = [] then ptr else Link (BASE c + last ys))"
proof (induction ys arbitrary: ptr h)
  case Nil
  then have "h = BASE c + b" by simp
  then show ?case using Nil(1) B by (subst free_find_loop.simps) simp
next
  case (Cons y ys)
  from Cons(3) obtain n where h: "h = BASE c + y"
    and n: "load_ptr c s (BASE c + y) = Some n" and l: "lpath c s n ys (BASE c + b)"
    by (auto split: option.splits)
  have yb: "y \<noteq> b" "b \<notin> set ys" using Cons(4) by auto
  have ll: "load_loc c s (Link (BASE c + y)) = Some n" using n by simp
  have "free_find_loop c s (BASE c + b) ptr = free_find_loop c s (BASE c + b) (Link (BASE c + y))"
    using Cons(2) h yb(1) B by (subst free_find_loop.simps) simp
  then show ?case using Cons.IH[OF ll l yb(2)] by simp
qed

subsection \<open>Unlinking the buddy\<close>

lemma rep_head_fits:
  assumes wf: "wf_config c" and inv: "ainv c F N" and l: "llist c s h (F k)"
  shows "h < 256 ^ PTR_SIZE c"
proof (cases "F k")
  case Nil
  then show ?thesis using l by simp
next
  case (Cons x xs)
  then have "valid_block c (x, k)" using ainv_valid_free[OF inv, of x k] by simp
  then have "x < 2 ^ MAX_ORDER c" by (rule valid_block_off_lt)
  then show ?thesis using l Cons wf_addr_fits[OF wf] by (simp add: llist_Cons)
qed

lemma unlink_step:
  assumes wf: "wf_config c" and rp: "rep c s F" and inv: "ainv c F N" and bF: "b \<in> set (F k)"
  shows "\<exists>ptr n s'. free_find_loop c s (BASE c + b) (Slot (k - MIN_ORDER c)) = Some ptr \<and>
           load_loc c s ptr = Some (BASE c + b) \<and> load_ptr c s (BASE c + b) = Some n \<and>
           store_loc c s ptr n = Some s' \<and> rep c s' (F(k := remove1 b (F k))) \<and>
           preserves c N s s' \<and> m_dummy s' = m_dummy s"
proof -
  have B: "0 < BASE c" using wf by (simp add: wf_config_def)
  have sh: "shape c s" using rp by (rule rep_shape)
  have vb: "valid_block c (b, k)" using inv bF by (rule ainv_valid_free)
  then have k: "MIN_ORDER c \<le> k" "k \<le> MAX_ORDER c" by (simp_all add: valid_block_def)
  have slot: "k - MIN_ORDER c < length (m_freelists s)" using sh k by (rule slot_in_range)
  let ?i = "k - MIN_ORDER c"
  let ?h = "m_freelists s ! ?i"
  have hl: "load_loc c s (Slot ?i) = Some ?h" using slot by simp
  from split_list_first[OF bF] obtain ys zs where Fk: "F k = ys @ b # zs" and bys: "b \<notin> set ys"
    by blast
  have d: "distinct (ys @ b # zs)" using ainv_distinct[OF inv, of k] Fk by simp
  have rm: "remove1 b (F k) = ys @ zs" using Fk bys by (simp add: remove1_append)
  have ll: "lpath c s ?h (ys @ b # zs) 0" using rep_llist[OF rp k] Fk by (simp add: llist_def)
  then obtain n where lp: "lpath c s ?h ys (BASE c + b)"
    and n: "load_ptr c s (BASE c + b) = Some n" and lz: "llist c s n zs"
    by (auto simp: lpath_append llist_def split: option.splits)
  have find: "free_find_loop c s (BASE c + b) (Slot ?i) =
                Some (if ys = [] then Slot ?i else Link (BASE c + last ys))"
    using B hl lp bys by (rule find_present)
  have nfit: "n < 256 ^ PTR_SIZE c"
  proof (cases zs)
    case Nil
    then show ?thesis using lz by simp
  next
    case (Cons z zs')
    then have "z \<in> set (F k)" using Fk by simp
    then have "valid_block c (z, k)" using inv by (rule_tac ainv_valid_free)
    then have "z < 2 ^ MAX_ORDER c" by (rule valid_block_off_lt)
    then show ?thesis using lz Cons wf_addr_fits[OF wf] by (simp add: llist_Cons)
  qed
  show ?thesis
  proof (cases "ys = []")
    case True
    then have Fk': "F k = b # zs" using Fk by simp
    from pop_step[OF rp Fk' k] n
    have rp': "rep c (s\<lparr>m_freelists := (m_freelists s)[?i := n]\<rparr>) (F(k := zs))" by simp
    let ?s' = "s\<lparr>m_freelists := (m_freelists s)[?i := n]\<rparr>"
    have f1: "free_find_loop c s (BASE c + b) (Slot ?i) = Some (Slot ?i)" using find True by simp
    have f2: "load_loc c s (Slot ?i) = Some (BASE c + b)" using lp True slot by simp
    have f3: "store_loc c s (Slot ?i) n = Some ?s'" using slot by simp
    have f4: "rep c ?s' (F(k := remove1 b (F k)))" using rp' rm True by simp
    have f5: "preserves c N s ?s'" by simp
    have f6: "m_dummy ?s' = m_dummy s" by simp
    show ?thesis using f1 f2 n f3 f4 f5 f6 by blast
  next
    case False
    then obtain ys' y where ys: "ys = ys' @ [y]" by (cases ys rule: rev_cases) auto
    from lp obtain m where p1: "lpath c s ?h ys' m" and p2: "lpath c s m [y] (BASE c + b)"
      unfolding ys lpath_append by blast
    from p2 have m: "m = BASE c + y" and ly: "load_ptr c s (BASE c + y) = Some (BASE c + b)"
      by (auto split: option.splits)
    have yF: "y \<in> set (F k)" using Fk ys by simp
    have vy: "valid_block c (y, k)" using inv yF by (rule ainv_valid_free)
    have "y + PTR_SIZE c \<le> length (m_buffer s)"
      using wf_link_fits[OF wf vy] sh by (simp add: shape_def)
    then obtain s' where s': "store_ptr c s (BASE c + y) n = Some s'" by (simp add: store_ptr_off)
    note fr = store_ptr_frame[OF s']
    have ld: "load_ptr c s' (BASE c + y) = Some n" using s' nfit by (rule load_store_ptr)
    have sh': "shape c s'" using sh fr(2) frame_length[OF fr(1)] by (simp add: shape_def)
    have apk: "span (x, k) \<inter> span (y, k) = {}" if "x \<in> set ys' \<union> set zs" for x
    proof -
      have "x \<in> set (F k)" "x \<noteq> y" using that d Fk ys by auto
      then show ?thesis using ainv_apart_free_free[OF inv _ yF, of x k] by simp
    qed
    have vk: "valid_block c (x, k)" if "x \<in> set ys' \<union> set zs" for x
    proof -
      have "x \<in> set (F k)" using that Fk ys by auto
      then show ?thesis using inv by (rule_tac ainv_valid_free)
    qed
    have q1: "lpath c s' ?h ys' (BASE c + y)"
      using frame_lpath[OF fr(1) link_in_inner[OF wf vy] _ _ wf, of ys' k ?h "BASE c + y"]
        apk vk p1 m by simp
    have q2: "lpath c s' n zs 0"
      using frame_lpath[OF fr(1) link_in_inner[OF wf vy] _ _ wf, of zs k n 0]
        apk vk lz by (simp add: llist_def)
    have new: "llist c s' ?h (ys @ zs)"
      unfolding llist_def ys using q1 q2 ld by (simp add: lpath_append)
    have "llist c s' (m_freelists s' ! (j - MIN_ORDER c)) ((F(k := remove1 b (F k))) j)"
      if j: "MIN_ORDER c \<le> j" "j \<le> MAX_ORDER c" for j
    proof (cases "j = k")
      case True
      then show ?thesis using new rm fr(2) by simp
    next
      case F2: False
      have "llist c s' h (F j) = llist c s h (F j)" for h
      proof (rule frame_llist[OF fr(1) link_in_inner[OF wf vy] _ _ wf])
        show "\<forall>x\<in>set (F j). span (x, j) \<inter> span (y, k) = {}"
          using ainv_apart_free_free[OF inv _ yF] F2 by simp
        show "\<forall>x\<in>set (F j). valid_block c (x, j)" using ainv_valid_free[OF inv] by blast
      qed
      then show ?thesis using rep_llist[OF rp j] F2 fr(2) by simp
    qed
    then have rp': "rep c s' (F(k := remove1 b (F k)))" using sh' unfolding rep_def by blast
    have pr: "preserves c N s s'"
    proof (rule frame_preserves[OF fr(1) fr(3) link_in_inner[OF wf vy] _ _ sh wf])
      show "\<forall>b\<in>N. span b \<inter> span (y, k) = {}"
        using ainv_apart_free[OF inv _ yF] by (auto simp: Int_commute)
      show "\<forall>b\<in>N. valid_block c b" using ainv_valid_N[OF inv] by blast
    qed
    have f2: "load_loc c s (Link (BASE c + y)) = Some (BASE c + b)" using ly by simp
    have f3: "store_loc c s (Link (BASE c + y)) n = Some s'" using s' by simp
    have f1: "free_find_loop c s (BASE c + b) (Slot ?i) = Some (Link (BASE c + y))"
      using find ys by simp
    show ?thesis using f1 f2 n f3 rp' pr fr(3) by blast
  qed
qed

subsection \<open>The loop of free\<close>

lemma free_push_step:
  assumes wf: "wf_config c" and rp: "rep c s F" and inv: "ainv c F N" and aN: "(a, k) \<in> N"
  shows "\<exists>s'. store_ptr c s (BASE c + a) (m_freelists s ! (k - MIN_ORDER c)) = Some s' \<and>
           rep c (s'\<lparr>m_freelists := (m_freelists s')[k - MIN_ORDER c := BASE c + a]\<rparr>) (F(k := a # F k)) \<and>
           preserves c (N - {(a, k)}) s s' \<and> m_dummy s' = m_dummy s"
proof -
  have v: "valid_block c (a, k)" using inv aN by (rule ainv_valid_N)
  have ap: "\<forall>j. \<forall>x\<in>set (F j). span (x, j) \<inter> span (a, k) = {}"
    using ainv_apart_free[OF inv aN] by blast
  have vF: "\<forall>j. \<forall>x\<in>set (F j). valid_block c (x, j)" using ainv_valid_free[OF inv] by blast
  from push_step[OF wf rp v ap vF] obtain s' where
    s': "store_ptr c s (BASE c + a) (m_freelists s ! (k - MIN_ORDER c)) = Some s'"
    and rp': "rep c (s'\<lparr>m_freelists := (m_freelists s')[k - MIN_ORDER c := BASE c + a]\<rparr>) (F(k := a # F k))"
    and fr: "frame {a ..< a + PTR_SIZE c} s s'" and dm: "m_dummy s' = m_dummy s"
    by (elim exE conjE)
  have "preserves c (N - {(a, k)}) s s'"
  proof (rule frame_preserves[OF fr dm link_in_inner[OF wf v] _ _ rep_shape[OF rp] wf])
    show "\<forall>b\<in>N - {(a, k)}. span b \<inter> span (a, k) = {}"
      using ainv_apart_N[OF inv aN] by blast
    show "\<forall>b\<in>N - {(a, k)}. valid_block c b" using ainv_valid_N[OF inv] by blast
  qed
  then show ?thesis using s' rp' dm by blast
qed

lemma free_loop_spec:
  "wf_config c \<Longrightarrow> rep c s F \<Longrightarrow> ainv c F N \<Longrightarrow> (a, k) \<in> N \<Longrightarrow>
   \<exists>s' F' kf. free_loop c s (BASE c + a) k = Some (s', kf) \<and> rep c s' F' \<and>
     ainv c F' (N - {(a, k)}) \<and> preserves c (N - {(a, k)}) s s' \<and>
     k \<le> kf \<and> kf \<le> MAX_ORDER c \<and> F' kf \<noteq> [] \<and> m_dummy s' = m_dummy s \<and>
     last_round c s' kf"
proof (induction "MAX_ORDER c - k" arbitrary: s F N a k rule: less_induct)
  case less
  note wf = less.prems(1) and rp = less.prems(2) and inv = less.prems(3) and aN = less.prems(4)
  have B: "0 < BASE c" using wf by (simp add: wf_config_def)
  have sh: "shape c s" using rp by (rule rep_shape)
  have v: "valid_block c (a, k)" using inv aN by (rule ainv_valid_N)
  then have k: "MIN_ORDER c \<le> k" "k \<le> MAX_ORDER c" by (simp_all add: valid_block_def)
  have nub: "\<not> (k < MIN_ORDER c \<or> MAX_ORDER c < k)" using k by simp
  let ?i = "k - MIN_ORDER c"
  let ?b = "a XOR 2 ^ k"
  have bo: "buddy_of c (BASE c + a) k = BASE c + ?b" by (rule buddy_of_off)
  have slot: "?i < length (m_freelists s)" using sh k by (rule slot_in_range)
  show ?case
  proof (cases "?b \<in> set (F k)")
    case False
    have hl: "load_loc c s (Slot ?i) = Some (m_freelists s ! ?i)" using slot by simp
    from find_absent[OF B hl rep_llist[OF rp k] False] obtain ptr where
      ptr: "free_find_loop c s (BASE c + ?b) (Slot ?i) = Some ptr"
      and p0: "load_loc c s ptr = Some 0" by (elim exE conjE)
    from free_push_step[OF wf rp inv aN] obtain s' where
      s': "store_ptr c s (BASE c + a) (m_freelists s ! ?i) = Some s'"
      and rp': "rep c (s'\<lparr>m_freelists := (m_freelists s')[?i := BASE c + a]\<rparr>) (F(k := a # F k))"
      and pr: "preserves c (N - {(a, k)}) s s'" and dm: "m_dummy s' = m_dummy s"
      by (elim exE conjE)
    let ?s'' = "s'\<lparr>m_freelists := (m_freelists s')[?i := BASE c + a]\<rparr>"
    have run: "free_loop c s (BASE c + a) k = Some (?s'', k)"
      using nub bo ptr p0 s' by (subst free_loop.simps) (simp add: Let_def)
    have inv': "ainv c (F(k := a # F k)) (N - {(a, k)})" using inv aN False by (rule ainv_push)
    have ne: "(F(k := a # F k)) k \<noteq> []" by simp
    have pr': "preserves c (N - {(a, k)}) s ?s''" using pr by simp
    have dm': "m_dummy ?s'' = m_dummy s" using dm by simp
    have "search_fails c s (BASE c + a) k" unfolding search_fails_def bo using ptr p0 by blast
    then have lr: "last_round c ?s'' k" unfolding last_round_def using v run by blast
    show ?thesis using run rp' inv' pr' k(2) ne dm' lr by blast
  next
    case True
    let ?lo = "min a ?b"
    let ?F1 = "F(k := remove1 ?b (F k))"
    let ?N1 = "insert (?lo, Suc k) (N - {(a, k)})"
    from unlink_step[OF wf rp inv True] obtain ptr n s1 where
      ptr: "free_find_loop c s (BASE c + ?b) (Slot ?i) = Some ptr"
      and pv: "load_loc c s ptr = Some (BASE c + ?b)"
      and n: "load_ptr c s (BASE c + ?b) = Some n"
      and s1: "store_loc c s ptr n = Some s1"
      and rp1: "rep c s1 ?F1" and pr1: "preserves c N s s1" and dm1: "m_dummy s1 = m_dummy s"
      by (elim exE conjE)
    have inv1: "ainv c ?F1 ?N1" using inv aN True by (rule ainv_coalesce)
    have kl: "k < MAX_ORDER c" using inv aN True by (rule ainv_coalesce_order)
    then have dec: "MAX_ORDER c - Suc k < MAX_ORDER c - k" by simp
    have in1: "(?lo, Suc k) \<in> ?N1" by simp
    from less.hyps[OF dec wf rp1 inv1 in1] obtain s' F' kf where
      run1: "free_loop c s1 (BASE c + ?lo) (Suc k) = Some (s', kf)"
      and rp': "rep c s' F'" and inv': "ainv c F' (?N1 - {(?lo, Suc k)})"
      and pr': "preserves c (?N1 - {(?lo, Suc k)}) s1 s'"
      and kf: "Suc k \<le> kf" "kf \<le> MAX_ORDER c" "F' kf \<noteq> []" and dm': "m_dummy s' = m_dummy s1"
      and lr: "last_round c s' kf"
      by (elim exE conjE)
    have nlo: "(?lo, Suc k) \<notin> N"
    proof
      assume inN: "(?lo, Suc k) \<in> N"
      have "a \<in> span (?lo, Suc k)"
        using max_xor_pow2[of a k] by (auto simp: in_span min_def max_def split: if_splits)
      moreover have "a \<in> span (a, k)" by (simp add: in_span)
      ultimately show False using ainv_apart_N[OF inv aN inN] by auto
    qed
    then have Neq: "?N1 - {(?lo, Suc k)} = N - {(a, k)}" by auto
    have mn: "min (BASE c + a) (BASE c + ?b) = BASE c + ?lo" by simp
    have vne: "BASE c + ?b \<noteq> 0" using B by simp
    have run: "free_loop c s (BASE c + a) k = Some (s', kf)"
      using nub bo ptr pv B n s1 run1 mn by (subst free_loop.simps) (simp add: Let_def)
    have pr: "preserves c (N - {(a, k)}) s s'"
      using preserves_mono[OF pr1, of "N - {(a, k)}"] pr' unfolding Neq
      by (simp add: preserves_trans[of c _ s s1 s'])
    have "k \<le> kf" using kf(1) by simp
    then show ?thesis using run rp' inv'[unfolded Neq] pr kf(2,3) dm' dm1 lr
      by (intro exI[of _ s'] exI[of _ F'] exI[of _ kf]) simp
  qed
qed

subsection \<open>The constructed allocator\<close>

lemma wf_min_order_pos: "wf_config c \<Longrightarrow> 0 < MIN_ORDER c"
proof (rule ccontr)
  assume wf: "wf_config c" and "\<not> 0 < MIN_ORDER c"
  then have "PTR_SIZE c + 1 \<le> 1" by (simp add: wf_config_def)
  then show False using wf by (simp add: wf_config_def)
qed

lemma tiling_top: "wf_config c \<Longrightarrow> tiling c {(0, MAX_ORDER c)}"
  unfolding tiling_def by (auto simp: valid_block_def wf_config_def in_span)

lemma ainv_construct:
  assumes wf: "wf_config c"
  shows "ainv c (\<lambda>k. if k = MAX_ORDER c then [0] else []) {}"
proof -
  let ?F = "\<lambda>k. if k = MAX_ORDER c then [0::nat] else []"
  have fb: "free_blocks ?F = {(0, MAX_ORDER c)}" by (auto simp: free_blocks_def split: if_splits)
  have "no_buddies ?F" unfolding no_buddies_def by (auto simp: xor_pow2)
  then show ?thesis unfolding ainv_def fb using tiling_top[OF wf] by simp
qed

lemma construct_freelists_length:
  "length (m_freelists (BuddyAllocator c)) = MAX_ORDER c - MIN_ORDER c + 1"
  unfolding BuddyAllocator_def by (simp del: replicate.simps)

lemma construct_freelists_nth:
  "i \<le> MAX_ORDER c - MIN_ORDER c \<Longrightarrow>
   m_freelists (BuddyAllocator c) ! i = (if i = MAX_ORDER c - MIN_ORDER c then BASE c else 0)"
  unfolding BuddyAllocator_def by (simp add: nth_list_update del: replicate.simps)

lemma construct_buffer: "m_buffer (BuddyAllocator c) = replicate (2 ^ MAX_ORDER c) 0"
  by (simp add: BuddyAllocator_def)

lemma rep_construct:
  assumes wf: "wf_config c"
  shows "rep c (BuddyAllocator c) (\<lambda>k. if k = MAX_ORDER c then [0] else [])"
proof -
  let ?s = "BuddyAllocator c"
  have sh: "shape c ?s" by (simp add: shape_def construct_freelists_length construct_buffer)
  have "PTR_SIZE c < 2 ^ MAX_ORDER c"
    using wf_link_fits(1)[OF wf, of 0 "MAX_ORDER c"] wf by (simp add: valid_block_def wf_config_def)
  then have "read_bytes 0 (PTR_SIZE c) (m_buffer ?s) = replicate (PTR_SIZE c) 0"
    by (simp add: read_bytes_def construct_buffer min_def)
  then have ld: "load_ptr c ?s (BASE c + 0) = Some 0"
    using \<open>PTR_SIZE c < 2 ^ MAX_ORDER c\<close> unfolding load_ptr_off
    by (simp add: construct_buffer)
  have "llist c ?s (m_freelists ?s ! (k - MIN_ORDER c)) (if k = MAX_ORDER c then [0] else [])"
    if k: "MIN_ORDER c \<le> k" "k \<le> MAX_ORDER c" for k
  proof (cases "k = MAX_ORDER c")
    case True
    then show ?thesis using ld by (simp add: llist_Cons construct_freelists_nth)
  next
    case False
    then have "k - MIN_ORDER c \<noteq> MAX_ORDER c - MIN_ORDER c" "k - MIN_ORDER c \<le> MAX_ORDER c - MIN_ORDER c"
      using k by simp_all
    then show ?thesis using False by (simp add: construct_freelists_nth)
  qed
  then show ?thesis using sh unfolding rep_def by simp
qed

lemma live_empty [simp]: "live c Map.empty = {}"
  by (simp add: live_def)

lemma good_construct: "wf_config c \<Longrightarrow> good c (BuddyAllocator c) Map.empty"
  unfolding good_def using rep_construct ainv_construct by (auto simp del: fun_upd_apply)

subsection \<open>The two outcomes of alloc\<close>

lemma req_order_Some: "log2 (sz + 1) = Some l \<Longrightarrow> req_order c sz = max (MIN_ORDER c) l"
  by (simp add: req_order_def)

lemma alloc_cases:
  assumes wf: "wf_config c" and rp: "rep c s F" and inv: "ainv c F N"
    and al: "alloc c s sz = Some (p, s')"
  obtains (null) "p = 0" "s' = s"
      "sz = 0 \<or> MAX_ORDER c < req_order c sz \<or>
       (\<forall>i. req_order c sz \<le> i \<and> i \<le> MAX_ORDER c \<longrightarrow> F i = [])"
  | (ok) x j rest where "p = BASE c + x" "sz \<noteq> 0" "req_order c sz \<le> j" "j \<le> MAX_ORDER c"
      "F j = x # rest" "\<forall>i. req_order c sz \<le> i \<and> i < j \<longrightarrow> F i = []"
      "rep c s' (\<lambda>i. if req_order c sz \<le> i \<and> i < j then (x + 2 ^ i) # F i
                      else if i = j then rest else F i)"
      "ainv c (\<lambda>i. if req_order c sz \<le> i \<and> i < j then (x + 2 ^ i) # F i
                      else if i = j then rest else F i) (insert (x, req_order c sz) N)"
      "(x, req_order c sz) \<notin> N" "preserves c N s s'"
      "load_byte c s' (BASE c + x - 1) = Some (word_of_nat (req_order c sz))"
proof -
  obtain l where l: "log2 (sz + 1) = Some l"
    using al alloc_undefined[of sz c s] by (cases "log2 (sz + 1)") auto
  let ?o = "req_order c sz"
  have o: "?o = max (MIN_ORDER c) l" using l by (rule req_order_Some)
  show thesis
  proof (cases "sz = 0 \<or> MAX_ORDER c < ?o \<or> (\<forall>i. ?o \<le> i \<and> i \<le> MAX_ORDER c \<longrightarrow> F i = [])")
    case True
    have "alloc c s sz = Some (0, s)"
    proof (cases "sz = 0 \<or> MAX_ORDER c < ?o")
      case True
      then show ?thesis using alloc_rejected[OF l] o by simp
    next
      case False
      then have "\<forall>i. max (MIN_ORDER c) l \<le> i \<and> i \<le> MAX_ORDER c \<longrightarrow> F i = []"
        using True o by simp
      with wf rp l show ?thesis by (rule alloc_exhausted)
    qed
    then have "p = 0" "s' = s" using al by simp_all
    then show thesis using True by (rule null)
  next
    case False
    then have nz: "sz \<noteq> 0" and ex: "\<exists>i. (?o \<le> i \<and> i \<le> MAX_ORDER c) \<and> F i \<noteq> []" by auto
    define j where "j = (LEAST i. (?o \<le> i \<and> i \<le> MAX_ORDER c) \<and> F i \<noteq> [])"
    have j1: "(?o \<le> j \<and> j \<le> MAX_ORDER c) \<and> F j \<noteq> []" unfolding j_def using ex by (rule LeastI_ex)
    have j2: "\<forall>i. ?o \<le> i \<and> i < j \<longrightarrow> F i = []"
    proof (intro allI impI)
      fix i assume i: "?o \<le> i \<and> i < j"
      then have "\<not> ((?o \<le> i \<and> i \<le> MAX_ORDER c) \<and> F i \<noteq> [])"
        unfolding j_def using not_less_Least by blast
      then show "F i = []" using i j1 by auto
    qed
    obtain x rest where Fj: "F j = x # rest" using j1 by (cases "F j") auto
    from alloc_success[OF wf rp inv l o nz _ _ Fj j2] j1 obtain s3 where
      a3: "alloc c s sz = Some (BASE c + x, s3)"
      and r3: "rep c s3 (\<lambda>i. if ?o \<le> i \<and> i < j then (x + 2 ^ i) # F i else if i = j then rest else F i)"
      and i3: "ainv c (\<lambda>i. if ?o \<le> i \<and> i < j then (x + 2 ^ i) # F i else if i = j then rest else F i)
                 (insert (x, ?o) N)"
      and n3: "(x, ?o) \<notin> N" and p3: "preserves c N s s3"
      and b3: "load_byte c s3 (BASE c + x - 1) = Some (word_of_nat ?o)"
      by auto
    have "p = BASE c + x" "s' = s3" using al a3 by simp_all
    then show thesis using ok[of x j rest] nz j1 Fj j2 r3 i3 n3 p3 b3 by simp
  qed
qed

subsection \<open>Steps of a program\<close>

lemma live_iff: "(a, k) \<in> live c L \<longleftrightarrow> (\<exists>sz. L (BASE c + a) = Some sz \<and> k = req_order c sz)"
  by (simp add: live_def)

lemma live_add:
  "L (BASE c + x) = None \<Longrightarrow> live c (L(BASE c + x \<mapsto> sz)) = insert (x, req_order c sz) (live c L)"
  by (auto simp: live_def split: if_splits)

lemma live_del:
  "L (BASE c + a) = Some sz \<Longrightarrow> live c (L(BASE c + a := None)) = live c L - {(a, req_order c sz)}"
  by (auto simp: live_def split: if_splits)

lemma good_rep: "good c s L \<Longrightarrow> \<exists>F. rep c s F \<and> ainv c F (live c L)"
  by (simp add: good_def)

lemma good_base: "good c s L \<Longrightarrow> L p = Some sz \<Longrightarrow> BASE c \<le> p"
  by (simp add: good_def)

lemma good_obyte:
  "good c s L \<Longrightarrow> L p = Some sz \<Longrightarrow> load_byte c s (p - 1) = Some (word_of_nat (req_order c sz))"
  by (simp add: good_def)

lemma goodI:
  assumes "rep c s F" "ainv c F (live c L)"
    "\<And>p sz. L p = Some sz \<Longrightarrow> BASE c \<le> p \<and> load_byte c s (p - 1) = Some (word_of_nat (req_order c sz))"
  shows "good c s L"
  unfolding good_def using assms by blast

lemma preserves_obyte:
  assumes "preserves c N s s'" "(a, k) \<in> N"
  shows "load_byte c s' (BASE c + a - 1) = load_byte c s (BASE c + a - 1)"
  using assms by (auto simp: preserves_def)

lemma alloc_ok_facts:
  assumes wf: "wf_config c" and g: "good c s L" and al: "alloc c s sz = Some (p, s')"
    and pnz: "p \<noteq> 0"
  obtains x where "p = BASE c + x" "L p = None" "good c s' (L(p \<mapsto> sz))"
    "valid_block c (x, req_order c sz)" "preserves c (live c L) s s'"
    "load_byte c s' (p - 1) = Some (word_of_nat (req_order c sz))" "sz \<noteq> 0"
proof -
  from good_rep[OF g] obtain F where rp: "rep c s F" and inv: "ainv c F (live c L)" by blast
  let ?o = "req_order c sz"
  from wf rp inv al show thesis
  proof (cases rule: alloc_cases)
    case null
    then show ?thesis using pnz by simp
  next
    case (ok x j rest)
    have xj: "x \<in> set (F j)" using ok(5) by simp
    have none: "L (BASE c + x) = None"
    proof (rule ccontr)
      assume "L (BASE c + x) \<noteq> None"
      then obtain sz' where "L (BASE c + x) = Some sz'" by auto
      then have "(x, req_order c sz') \<in> live c L" by (auto simp: live_iff)
      from ainv_apart_free[OF inv this xj] have "span (x, j) \<inter> span (x, req_order c sz') = {}" .
      moreover have "x \<in> span (x, j)" "x \<in> span (x, req_order c sz')" by (simp_all add: in_span)
      ultimately show False by blast
    qed
    have lv: "live c (L(p \<mapsto> sz)) = insert (x, ?o) (live c L)"
      unfolding ok(1) using none by (rule live_add)
    have ob: "load_byte c s' (p - 1) = Some (word_of_nat ?o)" using ok(11) ok(1) by simp
    have g': "good c s' (L(p \<mapsto> sz))"
    proof (rule goodI[OF ok(7)])
      show "ainv c (\<lambda>i. if ?o \<le> i \<and> i < j then (x + 2 ^ i) # F i else if i = j then rest else F i)
              (live c (L(p \<mapsto> sz)))"
        unfolding lv by (rule ok(8))
    next
      fix p' sz' assume L': "(L(p \<mapsto> sz)) p' = Some sz'"
      show "BASE c \<le> p' \<and> load_byte c s' (p' - 1) = Some (word_of_nat (req_order c sz'))"
      proof (cases "p' = p")
        case True
        then show ?thesis using L' ob ok(1) by simp
      next
        case False
        then have Lp': "L p' = Some sz'" using L' by simp
        have b: "BASE c \<le> p'" using g Lp' by (rule good_base)
        then obtain a' where a': "p' = BASE c + a'" using le_Suc_ex by blast
        have "(a', req_order c sz') \<in> live c L" using Lp' a' by (auto simp: live_iff)
        from preserves_obyte[OF ok(10) this]
        show ?thesis using good_obyte[OF g Lp'] b a' by simp
      qed
    qed
    have v: "valid_block c (x, ?o)" using ainv_valid_N[OF ok(8)] by simp
    show ?thesis using that[of x] ok(1,2,10) none g' v ob by simp
  qed
qed

lemma unat_order_byte: "k \<le> 31 \<Longrightarrow> unat (word_of_nat k :: 8 word) = k"
  by (simp add: unat_of_nat)

lemma free_ok_facts:
  assumes wf: "wf_config c" and g: "good c s L" and Lp: "L p = Some sz"
  obtains s' kf F' where "free_loop c s p (req_order c sz) = Some (s', kf)"
    "load_byte c s (p - 1) = Some (word_of_nat (req_order c sz))"
    "unat (word_of_nat (req_order c sz) :: 8 word) = req_order c sz"
    "free c s p = Some s'" "good c s' (L(p := None))" "rep c s' F'"
    "ainv c F' (live c (L(p := None)))" "preserves c (live c (L(p := None))) s s'"
    "req_order c sz \<le> kf" "kf \<le> MAX_ORDER c" "F' kf \<noteq> []" "last_round c s' kf"
proof -
  from good_rep[OF g] obtain F where rp: "rep c s F" and inv: "ainv c F (live c L)" by blast
  let ?o = "req_order c sz"
  have B: "0 < BASE c" using wf by (simp add: wf_config_def)
  have b: "BASE c \<le> p" using g Lp by (rule good_base)
  then obtain a where a: "p = BASE c + a" using le_Suc_ex by blast
  have aN: "(a, ?o) \<in> live c L" using Lp a by (auto simp: live_iff)
  have v: "valid_block c (a, ?o)" using inv aN by (rule ainv_valid_N)
  then have "?o \<le> 31" using wf by (simp add: valid_block_def wf_config_def MAX_ORDER_def)
  then have un: "unat (word_of_nat ?o :: 8 word) = ?o" by (rule unat_order_byte)
  have ob: "load_byte c s (p - 1) = Some (word_of_nat ?o)" using g Lp by (rule good_obyte)
  have lv: "live c (L(p := None)) = live c L - {(a, ?o)}"
    unfolding a using Lp[unfolded a] by (rule live_del)
  from free_loop_spec[OF wf rp inv aN] obtain s' F' kf where
    run: "free_loop c s (BASE c + a) ?o = Some (s', kf)" and rp': "rep c s' F'"
    and inv': "ainv c F' (live c L - {(a, ?o)})" and pr: "preserves c (live c L - {(a, ?o)}) s s'"
    and kf: "?o \<le> kf" "kf \<le> MAX_ORDER c" "F' kf \<noteq> []" "last_round c s' kf"
    by (elim exE conjE)
  have fr: "free c s p = Some s'" using run ob un a B by (simp add: free_def)
  have g': "good c s' (L(p := None))"
  proof (rule goodI[OF rp'])
    show "ainv c F' (live c (L(p := None)))" unfolding lv by (rule inv')
  next
    fix p' sz' assume L': "(L(p := None)) p' = Some sz'"
    then have ne: "p' \<noteq> p" and Lp': "L p' = Some sz'" by (auto split: if_splits)
    have b': "BASE c \<le> p'" using g Lp' by (rule good_base)
    then obtain a' where a': "p' = BASE c + a'" using le_Suc_ex by blast
    have "(a', req_order c sz') \<in> live c L - {(a, ?o)}" using Lp' a' a ne by (auto simp: live_iff)
    from preserves_obyte[OF pr this]
    show "BASE c \<le> p' \<and> load_byte c s' (p' - 1) = Some (word_of_nat (req_order c sz'))"
      using good_obyte[OF g Lp'] b' a' by simp
  qed
  have inv'': "ainv c F' (live c (L(p := None)))" unfolding lv by (rule inv')
  have pr'': "preserves c (live c (L(p := None))) s s'" unfolding lv by (rule pr)
  have run': "free_loop c s p ?o = Some (s', kf)" unfolding a by (rule run)
  show thesis
    using that[OF run' ob un fr g' rp' inv'' pr'' kf] .
qed

subsection \<open>Reachable states\<close>

lemma store_byte_buffer_frame:
  assumes "store_byte c s (BASE c + z) v = Some s'" "0 < BASE c"
  shows "frame {z} s s'" "m_freelists s' = m_freelists s" "m_dummy s' = m_dummy s"
  using store_byte_frame[of c s "Suc z" v s'] assms by simp_all

lemma good_write:
  assumes wf: "wf_config c" and g: "good c s L" and Lp: "L p = Some sz"
    and i: "i + 1 < 2 ^ req_order c sz" and st: "store_byte c s (p + i) v = Some s'"
  shows "good c s' L" "preserves c (live c L - {(p - BASE c, req_order c sz)}) s s'"
proof -
  from good_rep[OF g] obtain F where rp: "rep c s F" and inv: "ainv c F (live c L)" by blast
  let ?o = "req_order c sz"
  have B: "0 < BASE c" using wf by (simp add: wf_config_def)
  have sh: "shape c s" using rp by (rule rep_shape)
  have b: "BASE c \<le> p" using g Lp by (rule good_base)
  then obtain a where a: "p = BASE c + a" using le_Suc_ex by blast
  have aN: "(a, ?o) \<in> live c L" using Lp a by (auto simp: live_iff)
  have v: "valid_block c (a, ?o)" using inv aN by (rule ainv_valid_N)
  have st': "store_byte c s (BASE c + (a + i)) v = Some s'" using st a by (simp add: add.assoc)
  note fr = store_byte_buffer_frame[OF st' B]
  have X: "{a + i} \<subseteq> inner (a, ?o)" using i by (auto simp: inner_def)
  have sh': "shape c s'" using sh fr(2) frame_length[OF fr(1)] by (simp add: shape_def)
  have "llist c s' (m_freelists s' ! (j - MIN_ORDER c)) (F j)"
    if j: "MIN_ORDER c \<le> j" "j \<le> MAX_ORDER c" for j
  proof -
    have "llist c s' h (F j) = llist c s h (F j)" for h
    proof (rule frame_llist[OF fr(1) X _ _ wf])
      show "\<forall>x\<in>set (F j). span (x, j) \<inter> span (a, ?o) = {}"
        using ainv_apart_free[OF inv aN] by blast
      show "\<forall>x\<in>set (F j). valid_block c (x, j)" using ainv_valid_free[OF inv] by blast
    qed
    then show ?thesis using rep_llist[OF rp j] fr(2) by simp
  qed
  then have rp': "rep c s' F" using sh' unfolding rep_def by blast
  have pr: "preserves c (live c L - {(a, ?o)}) s s'"
  proof (rule frame_preserves[OF fr(1) fr(3) X _ _ sh wf])
    show "\<forall>b\<in>live c L - {(a, ?o)}. span b \<inter> span (a, ?o) = {}"
      using ainv_apart_N[OF inv aN] by blast
    show "\<forall>b\<in>live c L - {(a, ?o)}. valid_block c b" using ainv_valid_N[OF inv] by blast
  qed
  then show "preserves c (live c L - {(p - BASE c, ?o)}) s s'" using a by simp
  show "good c s' L"
  proof (rule goodI[OF rp' inv])
    fix p' sz' assume Lp': "L p' = Some sz'"
    have b': "BASE c \<le> p'" using g Lp' by (rule good_base)
    then obtain a' where a': "p' = BASE c + a'" using le_Suc_ex by blast
    have "load_byte c s' (BASE c + a' - 1) = load_byte c s (BASE c + a' - 1)"
    proof (cases "p' = p")
      case True
      then have "a' = a" using a a' by simp
      then have "0 < a' \<longrightarrow> a' - 1 \<notin> {a + i}" by auto
      then show ?thesis using load_byte_frame[OF fr(1) fr(3) B] by simp
    next
      case False
      then have "(a', req_order c sz') \<in> live c L - {(a, ?o)}"
        using Lp' a' a by (auto simp: live_iff)
      from preserves_obyte[OF pr this] show ?thesis .
    qed
    then show "BASE c \<le> p' \<and> load_byte c s' (p' - 1) = Some (word_of_nat (req_order c sz'))"
      using good_obyte[OF g Lp'] b' a' by simp
  qed
qed

theorem reach_good:
  assumes wf: "wf_config c"
  shows "reach c s L \<Longrightarrow> good c s L"
proof (induction rule: reach.induct)
  case construct
  show ?case using wf by (rule good_construct)
next
  case (alloc_ok s L sz p s')
  from wf alloc_ok(4) alloc_ok(2) alloc_ok(3) show ?case by (rule alloc_ok_facts)
next
  case (alloc_null s L sz s')
  from good_rep[OF alloc_null(3)] obtain F where rp: "rep c s F" and inv: "ainv c F (live c L)"
    by blast
  from wf rp inv alloc_null(2) have "s' = s"
  proof (cases rule: alloc_cases)
    case null
    then show ?thesis by simp
  next
    case (ok x j rest)
    then show ?thesis using wf by (simp add: wf_config_def)
  qed
  then show ?case using alloc_null(3) by simp
next
  case (free_ok s L p sz s')
  from wf free_ok(4) free_ok(2) obtain s'' where f: "free c s p = Some s''"
    and g: "good c s'' (L(p := None))"
    by (rule free_ok_facts)
  have "s'' = s'" using f free_ok(3) by simp
  then show ?case using g by (simp only:)
next
  case (free_null s L s')
  then show ?case by (simp add: free_def)
next
  case (payload_write s L p sz i v s')
  from good_write(1)[OF wf payload_write(6) payload_write(2) payload_write(4) payload_write(5)]
  show ?case .
qed

subsection \<open>Claims on reachable states\<close>

lemma min_order_cfg64: "MIN_ORDER cfg64 = 4"
  by (simp add: MIN_ORDER_def cfg64_def log2_def log2_loop.simps)

lemma wf_cfg64: "wf_config cfg64"
  by (simp add: wf_config_def min_order_cfg64 MAX_ORDER_def) (simp add: cfg64_def)

text \<open>
  Claim C7. In every state reachable from construction by calls of \<open>alloc\<close> and
  \<open>free\<close> with valid pointers (and writes of the program to its allocations), the free
  lists are well-formed linked lists and no block of a free list has its buddy, as
  \<open>buddy_of\<close> computes it, on the same free list.
\<close>

theorem C7_no_free_buddies:
  assumes "wf_config c" "reach c s L"
  shows "\<exists>F. rep c s F \<and>
           (\<forall>k. \<forall>x\<in>set (F k). buddy_of c (BASE c + x) k \<notin> (\<lambda>y. BASE c + y) ` set (F k))"
proof -
  from reach_good[OF assms] good_rep obtain F where rp: "rep c s F" and inv: "ainv c F (live c L)"
    by blast
  have "buddy_of c (BASE c + x) k \<notin> (\<lambda>y. BASE c + y) ` set (F k)" if "x \<in> set (F k)" for k x
    using ainv_no_buddies[OF inv that] by (auto simp: buddy_of_off)
  then show ?thesis using rp by blast
qed

text \<open>
  Claim C4, as amended: every pointer returned by a successful \<open>alloc\<close> in a reachable
  state lies in the buffer, \<open>base \<le> p \<le> base + (1 << MAX_POWER) - 1\<close>. (The claim's
  strict \<open>base < p\<close> fails: the block at offset 0 is handed out.)
\<close>

theorem C4_containment:
  assumes "wf_config c" "reach c s L" "alloc c s sz = Some (p, s')" "p \<noteq> 0"
  shows "BASE c \<le> p \<and> p \<le> BASE c + 2 ^ MAX_POWER c - 1"
proof -
  from assms(1) reach_good[OF assms(1,2)] assms(3,4) obtain x where
    x: "p = BASE c + x" "valid_block c (x, req_order c sz)" by (rule alloc_ok_facts)
  have "x < 2 ^ MAX_ORDER c" using x(2) by (rule valid_block_off_lt)
  then show ?thesis using x(1) by (simp add: MAX_ORDER_def)
qed

text \<open>
  Claim C6. Every pointer returned by a successful \<open>alloc\<close> in a reachable state is
  aligned, relative to the buffer base, to \<open>1 << order\<close>, where \<open>order\<close> is the byte
  recorded at \<open>p - 1\<close>.
\<close>

theorem C6_alignment:
  assumes "wf_config c" "reach c s L" "alloc c s sz = Some (p, s')" "p \<noteq> 0"
  shows "\<exists>b. load_byte c s' (p - 1) = Some b \<and> BASE c \<le> p \<and> 2 ^ unat b dvd (p - BASE c)"
proof -
  from assms(1) reach_good[OF assms(1,2)] assms(3,4) obtain x where
    x: "p = BASE c + x" "valid_block c (x, req_order c sz)"
       "load_byte c s' (p - 1) = Some (word_of_nat (req_order c sz))" by (rule alloc_ok_facts)
  have "req_order c sz \<le> 31" using x(2) assms(1) by (simp add: valid_block_def wf_config_def MAX_ORDER_def)
  then have "unat (word_of_nat (req_order c sz) :: 8 word) = req_order c sz" by (rule unat_order_byte)
  moreover have "2 ^ req_order c sz dvd x" using x(2) by (simp add: valid_block_def)
  ultimately show ?thesis using x(1,3) by simp
qed

lemma pow2_word_facts:
  assumes "0 < k" "k \<le> 31"
  shows "(2 ^ k - 1 :: 32 word) \<noteq> 0" "unat ((2 ^ k - 1 :: 32 word) + 1) = 2 ^ k"
proof -
  have lt: "k < 32" using assms by simp
  have u: "unat (2 ^ k :: 32 word) = 2 ^ k" using lt by (rule unat_pow2_32)
  show "unat ((2 ^ k - 1 :: 32 word) + 1) = 2 ^ k" using u by simp
  have "(2::nat) ^ k \<noteq> 1" using assms(1) by simp
  then have "unat (2 ^ k :: 32 word) \<noteq> unat (1 :: 32 word)" using u by simp
  then have "(2 ^ k :: 32 word) \<noteq> 1" by auto
  then show "(2 ^ k - 1 :: 32 word) \<noteq> 0" by simp
qed

lemma log2_pow2:
  assumes "0 < k" "k \<le> 31"
  shows "log2 ((2 ^ k - 1 :: 32 word) + 1) = Some k"
proof -
  have "unat ((2 ^ k - 1 :: 32 word) + 1) = 2 ^ k" using assms by (rule pow2_word_facts)
  moreover have "(2::nat) ^ k \<le> 2 ^ 31" using assms(2) by (intro power_increasing) simp_all
  moreover have "ceil_log2 (2 ^ k) = k"
    by (rule ceil_log2_unique) (simp_all add: power_strict_increasing)
  ultimately show ?thesis using log2_eq[of "(2 ^ k - 1 :: 32 word) + 1"] by simp
qed

text \<open>
  Claim C3. In a reachable state with no outstanding allocation (whatever was allocated
  and in whatever order it was released) the free lists are those of a new allocator: the
  whole buffer is the single block of the top free list, and \<open>alloc((1 << MAX_ORDER) - 1)\<close>
  succeeds, returning the base of the buffer.
\<close>

theorem C3_recovery:
  assumes wf: "wf_config c" and r: "reach c s Map.empty"
  shows "m_freelists s = m_freelists (BuddyAllocator c) \<and> load_ptr c s (BASE c) = Some 0 \<and>
         (\<exists>s'. alloc c s (2 ^ MAX_ORDER c - 1) = Some (BASE c, s'))"
proof -
  let ?M = "MAX_ORDER c"
  let ?F = "\<lambda>k. if k = ?M then [0::nat] else []"
  from reach_good[OF wf r] good_rep obtain F where rp: "rep c s F" and inv: "ainv c F {}"
    by fastforce
  have F: "F = ?F" using inv by (rule all_free_top)
  have mm: "MIN_ORDER c \<le> ?M" "0 < ?M" "?M \<le> 31"
    using wf wf_min_order_pos[OF wf] by (simp_all add: wf_config_def MAX_ORDER_def)
  have sh: "shape c s" using rp by (rule rep_shape)
  have heads: "m_freelists s ! i = (if i = ?M - MIN_ORDER c then BASE c else 0)"
    if "i \<le> ?M - MIN_ORDER c" for i
  proof -
    have "m_freelists s ! ((i + MIN_ORDER c) - MIN_ORDER c) =
            (case F (i + MIN_ORDER c) of [] \<Rightarrow> 0 | x # _ \<Rightarrow> BASE c + x)"
      using that mm by (intro rep_head[OF rp]) simp_all
    then show ?thesis using that mm unfolding F by (auto split: if_splits)
  qed
  have fl: "m_freelists s = m_freelists (BuddyAllocator c)"
  proof (rule nth_equalityI)
    show "length (m_freelists s) = length (m_freelists (BuddyAllocator c))"
      using sh by (simp add: shape_def construct_freelists_length)
    fix i assume "i < length (m_freelists s)"
    then have "i \<le> ?M - MIN_ORDER c" using sh by (simp add: shape_def)
    then show "m_freelists s ! i = m_freelists (BuddyAllocator c) ! i"
      using heads by (simp add: construct_freelists_nth)
  qed
  have "llist c s (m_freelists s ! (?M - MIN_ORDER c)) (F ?M)" using mm by (intro rep_llist[OF rp]) simp_all
  then have ld: "load_ptr c s (BASE c) = Some 0" unfolding F by (auto simp: llist_Cons)
  let ?sz = "2 ^ ?M - 1 :: 32 word"
  have l: "log2 (?sz + 1) = Some ?M" using mm by (intro log2_pow2) simp_all
  have nz: "?sz \<noteq> 0" using mm by (intro pow2_word_facts) simp_all
  have o: "?M = max (MIN_ORDER c) ?M" using mm by simp
  have FM: "F ?M = 0 # []" unfolding F by simp
  have least: "\<forall>i. ?M \<le> i \<and> i < ?M \<longrightarrow> F i = []" by auto
  from alloc_success[OF wf rp inv l o nz le_refl le_refl FM least]
  obtain s' where "alloc c s ?sz = Some (BASE c + 0, s')" by blast
  then show ?thesis using fl ld by auto
qed

subsection \<open>Termination of free\<close>

lemma top_free_only:
  assumes inv: "ainv c F N" and ne: "F (MAX_ORDER c) \<noteq> []"
  shows "N = {}" "F = (\<lambda>k. if k = MAX_ORDER c then [0] else [])"
proof -
  let ?M = "MAX_ORDER c"
  let ?B = "free_blocks F \<union> N"
  from ne obtain x where x: "x \<in> set (F ?M)" by (cases "F ?M") auto
  have "valid_block c (x, ?M)" using inv x by (rule ainv_valid_free)
  then have x0: "x = 0" by (simp add: valid_block_def)
  have top: "(0, ?M) \<in> ?B" using x x0 by simp
  have only: "b = (0, ?M)" if b: "b \<in> ?B" for b
  proof -
    obtain a k where ak: "b = (a, k)" by (cases b)
    have "valid_block c (a, k)" using tiling_valid[OF ainv_tiling[OF inv] b] ak by simp
    then have "a < 2 ^ ?M" by (rule valid_block_off_lt)
    then have "a \<in> span (0, ?M)" by (simp add: in_span)
    moreover have "a \<in> span b" using ak by (simp add: in_span)
    ultimately show ?thesis using tiling_overlap[OF ainv_tiling[OF inv] b top] by blast
  qed
  have "(0, ?M) \<notin> N" using ainv_disjoint[OF inv x] x0 by simp
  then show N: "N = {}" using only by blast
  show "F = (\<lambda>k. if k = ?M then [0] else [])" using inv unfolding N by (rule all_free_top)
qed

lemma buddy_of_top: "buddy_of c (BASE c) (MAX_ORDER c) = BASE c + 2 ^ MAX_ORDER c"
  by (simp add: buddy_of_def)

text \<open>
  Claim C8. For a pointer that \<open>alloc\<close> returned and that was not released since,
  \<open>free\<close> returns (with defined behaviour). The loop leaves at an order \<open>kf\<close> between the
  recorded order and \<open>MAX_ORDER\<close>, so it coalesces at most \<open>MAX_ORDER - order\<close> times, and
  it leaves through a round in which the search of the free list fails. When that order
  is \<open>MAX_ORDER\<close>, the block is the whole buffer, the buddy address that was searched is
  the first address after the buffer, and afterwards the block is the only element of the
  top free list while every other free list is empty.
\<close>

theorem C8_free_terminates:
  assumes wf: "wf_config c" and r: "reach c s L" and Lp: "L p = Some sz"
  shows "\<exists>b s' kf. load_byte c s (p - 1) = Some b \<and> free c s p = Some s' \<and>
           free_loop c s p (unat b) = Some (s', kf) \<and>
           unat b \<le> kf \<and> kf \<le> MAX_ORDER c \<and> kf - unat b \<le> MAX_ORDER c - unat b \<and>
           last_round c s' kf \<and>
           (kf = MAX_ORDER c \<longrightarrow>
              (\<exists>s1. free_loop c s1 (BASE c) (MAX_ORDER c) = Some (s', kf) \<and>
                    search_fails c s1 (BASE c) (MAX_ORDER c)) \<and>
              buddy_of c (BASE c) (MAX_ORDER c) = BASE c + length (m_buffer s) \<and>
              llist c s' (m_freelists s' ! (MAX_ORDER c - MIN_ORDER c)) [0] \<and>
              (\<forall>k. MIN_ORDER c \<le> k \<and> k < MAX_ORDER c \<longrightarrow> m_freelists s' ! (k - MIN_ORDER c) = 0))"
proof -
  let ?M = "MAX_ORDER c"
  let ?o = "req_order c sz"
  have g: "good c s L" using wf r by (rule reach_good)
  from good_rep[OF g] obtain F0 where rp0: "rep c s F0" by blast
  have len: "length (m_buffer s) = 2 ^ ?M" using rep_shape[OF rp0] by (simp add: shape_def)
  from wf g Lp obtain s' kf F' where
    run: "free_loop c s p ?o = Some (s', kf)"
    and ob: "load_byte c s (p - 1) = Some (word_of_nat ?o)"
    and un: "unat (word_of_nat ?o :: 8 word) = ?o"
    and fr: "free c s p = Some s'" and rp': "rep c s' F'"
    and inv': "ainv c F' (live c (L(p := None)))"
    and kf: "?o \<le> kf" "kf \<le> ?M" "F' kf \<noteq> []" and lr: "last_round c s' kf"
    by (rule free_ok_facts)
  have mm: "MIN_ORDER c \<le> ?M" using wf by (simp add: wf_config_def)
  have top: "(\<exists>s1. free_loop c s1 (BASE c) ?M = Some (s', kf) \<and> search_fails c s1 (BASE c) ?M) \<and>
             buddy_of c (BASE c) ?M = BASE c + length (m_buffer s) \<and>
             llist c s' (m_freelists s' ! (?M - MIN_ORDER c)) [0] \<and>
             (\<forall>k. MIN_ORDER c \<le> k \<and> k < ?M \<longrightarrow> m_freelists s' ! (k - MIN_ORDER c) = 0)"
    if eq: "kf = ?M"
  proof -
    have F': "F' = (\<lambda>k. if k = ?M then [0] else [])" using inv' kf(3) unfolding eq by (rule top_free_only)
    from lr obtain s1 a1 where v1: "valid_block c (a1, ?M)"
      and r1: "free_loop c s1 (BASE c + a1) ?M = Some (s', kf)"
      and sf: "search_fails c s1 (BASE c + a1) ?M"
      unfolding last_round_def eq by blast
    have "a1 = 0" using v1 by (simp add: valid_block_def)
    then have 1: "\<exists>s1. free_loop c s1 (BASE c) ?M = Some (s', kf) \<and> search_fails c s1 (BASE c) ?M"
      using r1 sf by auto
    have 2: "llist c s' (m_freelists s' ! (?M - MIN_ORDER c)) [0]"
      using rep_llist[OF rp' mm le_refl] unfolding F' by simp
    have 3: "\<forall>k. MIN_ORDER c \<le> k \<and> k < ?M \<longrightarrow> m_freelists s' ! (k - MIN_ORDER c) = 0"
    proof (intro allI impI)
      fix k assume k: "MIN_ORDER c \<le> k \<and> k < ?M"
      then have "llist c s' (m_freelists s' ! (k - MIN_ORDER c)) (F' k)"
        by (intro rep_llist[OF rp']) simp_all
      then show "m_freelists s' ! (k - MIN_ORDER c) = 0" using k unfolding F' by simp
    qed
    show ?thesis using 1 2 3 buddy_of_top[of c] len by simp
  qed
  have "kf - ?o \<le> ?M - ?o" using kf(2) by simp
  then show ?thesis using ob fr run un kf(1,2) lr top
    by (intro exI[of _ "word_of_nat ?o"] exI[of _ s'] exI[of _ kf]) simp
qed

subsection \<open>Split policy and frame\<close>

lemma log2_one_plus_one: "log2 (1 + 1) = Some 1"
proof -
  have "log2 (2 :: 32 word) = Some (ceil_log2 (unat (2 :: 32 word)))" by (rule log2_eq) simp
  moreover have "ceil_log2 2 = 1" by (rule ceil_log2_unique) simp_all
  ultimately show ?thesis by simp
qed

text \<open>
  Claim C9, as amended: on a fresh allocator whose buffer is larger than one minimum
  block, \<open>alloc(1)\<close> returns the base of the buffer (offset 0, the lower half of every
  split), and the following \<open>alloc((1 << MIN_ORDER) - 1)\<close> returns the block at offset
  \<open>1 << MIN_ORDER\<close>, the upper half that the last split pushed.
\<close>

theorem C9_split_policy:
  assumes wf: "wf_config c" and lt: "MIN_ORDER c < MAX_ORDER c"
  shows "\<exists>s1 s2. alloc c (BuddyAllocator c) 1 = Some (BASE c + 0, s1) \<and>
           alloc c s1 (2 ^ MIN_ORDER c - 1) = Some (BASE c + 2 ^ MIN_ORDER c, s2)"
proof -
  let ?m = "MIN_ORDER c" and ?M = "MAX_ORDER c"
  let ?F0 = "\<lambda>k. if k = ?M then [0::nat] else []"
  have m: "0 < ?m" using wf by (rule wf_min_order_pos)
  have M31: "?M \<le> 31" using wf by (simp add: wf_config_def MAX_ORDER_def)
  have rp0: "rep c (BuddyAllocator c) ?F0" using wf by (rule rep_construct)
  have inv0: "ainv c ?F0 {}" using wf by (rule ainv_construct)
  have o1: "?m = max ?m 1" using m by simp
  have F0M: "?F0 ?M = 0 # []" by simp
  have least0: "\<forall>i. ?m \<le> i \<and> i < ?M \<longrightarrow> ?F0 i = []" by auto
  have one: "(1 :: 32 word) \<noteq> 0" by simp
  let ?F1 = "\<lambda>i. if ?m \<le> i \<and> i < ?M then (0 + 2 ^ i) # ?F0 i else if i = ?M then [] else ?F0 i"
  from alloc_success[OF wf rp0 inv0 log2_one_plus_one o1 one _ le_refl F0M least0] lt
  obtain s1 where a1: "alloc c (BuddyAllocator c) 1 = Some (BASE c + 0, s1)"
    and rp1: "rep c s1 ?F1" and inv1: "ainv c ?F1 (insert (0, ?m) {})"
    by auto
  let ?sz = "2 ^ ?m - 1 :: 32 word"
  have m31: "?m \<le> 31" using lt M31 by simp
  have l2: "log2 (?sz + 1) = Some ?m" using m m31 by (rule log2_pow2)
  have nz: "?sz \<noteq> 0" using m m31 by (rule pow2_word_facts)
  have o2: "?m = max ?m ?m" by simp
  have F1m: "?F1 ?m = 2 ^ ?m # []" using lt by simp
  have least1: "\<forall>i. ?m \<le> i \<and> i < ?m \<longrightarrow> ?F1 i = []" by auto
  from alloc_success[OF wf rp1 inv1 l2 o2 nz le_refl _ F1m least1] lt
  obtain s2 where "alloc c s1 ?sz = Some (BASE c + 2 ^ ?m, s2)" by auto
  then show ?thesis using a1 by blast
qed

lemma kept_refl: "kept c q n s s"
  by (simp add: kept_def)

lemma preserves_kept:
  assumes pr: "preserves c N s s'" and aN: "(a, k) \<in> N"
    and len: "length (m_buffer s') = length (m_buffer s)" and n: "n + 1 \<le> 2 ^ k"
  shows "kept c (BASE c + a) n s s'"
  unfolding kept_def
proof (intro conjI allI impI)
  fix i assume i: "i < n"
  then have "a + i \<in> inner (a, k)" using n by (simp add: inner_def)
  then have "m_buffer s' ! (a + i) = m_buffer s ! (a + i)" using pr aN by (auto simp: preserves_def)
  then show "load_byte c s' (BASE c + a + i) = load_byte c s (BASE c + a + i)"
    using len by (simp add: load_byte_def add.assoc)
next
  show "load_byte c s' (BASE c + a - 1) = load_byte c s (BASE c + a - 1)"
    using pr aN by (rule preserves_obyte)
qed

lemma good_length: "good c s L \<Longrightarrow> length (m_buffer s) = 2 ^ MAX_ORDER c"
  using good_rep[of c s L] rep_shape[of c s] by (auto simp: shape_def)

text \<open>
  The frame of a request that fits its block. Let \<open>q\<close> be a live allocation of \<open>szq\<close>
  bytes in a reachable state, with order byte \<open>b\<close> at \<open>q - 1\<close> and \<open>szq \<le> (1 << b) - 1\<close>. Then
  every call of \<open>alloc\<close>, and every call of \<open>free\<close> on another live pointer, leaves the
  \<open>szq\<close> payload bytes at \<open>q\<close> and the order byte at \<open>q - 1\<close> as they were: none of the
  allocator's writes (links, order bytes, the pad byte) falls on them.
\<close>

lemma frame_of_fitting_request:
  assumes wf: "wf_config c" and r: "reach c s L" and Lq: "L q = Some szq"
    and b: "load_byte c s (q - 1) = Some b" and fits: "unat szq + 1 \<le> 2 ^ unat b"
  shows "(alloc c s sz = Some (p, s') \<longrightarrow> kept c q (unat szq) s s') \<and>
         (L p2 = Some sz2 \<and> p2 \<noteq> q \<and> free c s p2 = Some s2 \<longrightarrow> kept c q (unat szq) s s2)"
proof -
  let ?o = "req_order c szq"
  have g: "good c s L" using wf r by (rule reach_good)
  from good_rep[OF g] obtain F where rp: "rep c s F" and inv: "ainv c F (live c L)" by blast
  have bq: "BASE c \<le> q" using g Lq by (rule good_base)
  then obtain a where a: "q = BASE c + a" using le_Suc_ex by blast
  have aN: "(a, ?o) \<in> live c L" using Lq a by (auto simp: live_iff)
  have "valid_block c (a, ?o)" using inv aN by (rule ainv_valid_N)
  then have "?o \<le> 31" using wf by (simp add: valid_block_def wf_config_def MAX_ORDER_def)
  then have "unat (word_of_nat ?o :: 8 word) = ?o" by (rule unat_order_byte)
  moreover have "b = word_of_nat ?o" using good_obyte[OF g Lq] b by simp
  ultimately have n: "unat szq + 1 \<le> 2 ^ ?o" using fits by simp
  have 1: "kept c q (unat szq) s s'" if al: "alloc c s sz = Some (p, s')"
  proof (cases "p = 0")
    case True
    from wf rp inv al have "s' = s"
    proof (cases rule: alloc_cases)
      case null
      then show ?thesis by simp
    next
      case (ok x j rest)
      then show ?thesis using True wf by (simp add: wf_config_def)
    qed
    then show ?thesis by (simp add: kept_refl)
  next
    case False
    from wf g al False obtain x where "good c s' (L(p \<mapsto> sz))" "preserves c (live c L) s s'"
      by (rule alloc_ok_facts)
    then show ?thesis unfolding a using preserves_kept[OF _ aN _ n] good_length g by simp
  qed
  have 2: "kept c q (unat szq) s s2" if fr: "L p2 = Some sz2 \<and> p2 \<noteq> q \<and> free c s p2 = Some s2"
  proof -
    have L2: "L p2 = Some sz2" using fr by simp
    from wf g L2 obtain s'' where f: "free c s p2 = Some s''" and g': "good c s'' (L(p2 := None))"
      and pr: "preserves c (live c (L(p2 := None))) s s''"
      by (rule free_ok_facts)
    have eq: "s'' = s2" using f fr by simp
    have "(a, ?o) \<in> live c (L(p2 := None))" using Lq a fr by (auto simp: live_iff)
    from preserves_kept[OF pr this _ n] show ?thesis
      unfolding a using good_length[OF g'] good_length[OF g] eq by simp
  qed
  show ?thesis using 1 2 by blast
qed

text \<open>
  Every outstanding request is one for which \<open>log2(size + 1)\<close> was defined. Hence every
  outstanding request but \<open>0xFFFFFFFF\<close> fits its block, and has the frame property.
\<close>

lemma reach_request_defined:
  "reach c s L \<Longrightarrow> L q = Some szq \<Longrightarrow> log2 (szq + 1) \<noteq> None"
proof (induction arbitrary: q szq rule: reach.induct)
  case construct
  then show ?case by simp
next
  case (alloc_ok s L sz p s')
  show ?case
  proof (cases "q = p")
    case True
    then have "szq = sz" using alloc_ok.prems by simp
    moreover have "log2 (sz + 1) \<noteq> None"
      using alloc_ok.hyps(2) alloc_undefined[of sz c s] by auto
    ultimately show ?thesis by simp
  next
    case False
    then have "L q = Some szq" using alloc_ok.prems by simp
    then show ?thesis by (rule alloc_ok.IH)
  qed
next
  case (alloc_null s L sz s')
  from alloc_null.prems show ?case by (rule alloc_null.IH)
next
  case (free_ok s L p sz s')
  have "L q = Some szq" using free_ok.prems by (cases "q = p") simp_all
  then show ?case by (rule free_ok.IH)
next
  case (free_null s L s')
  from free_null.prems show ?case by (rule free_null.IH)
next
  case (payload_write s L p sz i v s')
  from payload_write.prems show ?case by (rule payload_write.IH)
qed

lemma request_fits:
  assumes wf: "wf_config c" and r: "reach c s L" and Lq: "L q = Some szq" and nomax: "szq \<noteq> - 1"
  shows "\<exists>b. load_byte c s (q - 1) = Some b \<and> unat szq + 1 \<le> 2 ^ unat b"
proof -
  let ?o = "req_order c szq"
  have g: "good c s L" using wf r by (rule reach_good)
  from good_rep[OF g] obtain F where rp: "rep c s F" and inv: "ainv c F (live c L)" by blast
  have bq: "BASE c \<le> q" using g Lq by (rule good_base)
  then obtain a where a: "q = BASE c + a" using le_Suc_ex by blast
  have aN: "(a, ?o) \<in> live c L" using Lq a by (auto simp: live_iff)
  have "valid_block c (a, ?o)" using inv aN by (rule ainv_valid_N)
  then have "?o \<le> 31" using wf by (simp add: valid_block_def wf_config_def MAX_ORDER_def)
  then have u: "unat (word_of_nat ?o :: 8 word) = ?o" by (rule unat_order_byte)
  have ob: "load_byte c s (q - 1) = Some (word_of_nat ?o)" using g Lq by (rule good_obyte)
  obtain l where l: "log2 (szq + 1) = Some l"
    using reach_request_defined[OF r Lq] by auto
  have "szq + 1 \<noteq> 0" using nomax by (simp add: eq_neg_iff_add_eq_0)
  then have u1: "unat (szq + 1) = unat szq + 1" by (simp add: add.commute unatSuc)
  have "\<not> 2 ^ 31 < unat (szq + 1)" using l log2_undefined[of "szq + 1"] by auto
  then have "unat (szq + 1) \<le> 2 ^ 31" by simp
  then have "log2 (szq + 1) = Some (ceil_log2 (unat (szq + 1)))" by (rule log2_eq)
  then have "?o = max (MIN_ORDER c) (ceil_log2 (unat szq + 1))"
    using u1 by (simp add: req_order_def)
  then have "ceil_log2 (unat szq + 1) \<le> ?o" by simp
  then have "(2::nat) ^ ceil_log2 (unat szq + 1) \<le> 2 ^ ?o" by (simp add: power_increasing)
  with ceil_log2_upper[of "unat szq + 1"] have "unat szq + 1 \<le> 2 ^ ?o" by (rule order_trans)
  then show ?thesis using ob u by simp
qed

lemma frame_except_overflow:
  assumes wf: "wf_config c" and r: "reach c s L" and Lq: "L q = Some szq" and nomax: "szq \<noteq> - 1"
  shows "(alloc c s sz = Some (p, s') \<longrightarrow> kept c q (unat szq) s s') \<and>
         (L p2 = Some sz2 \<and> p2 \<noteq> q \<and> free c s p2 = Some s2 \<longrightarrow> kept c q (unat szq) s s2)"
proof -
  from request_fits[OF wf r Lq nomax] obtain b where
    b: "load_byte c s (q - 1) = Some b" and fits: "unat szq + 1 \<le> 2 ^ unat b" by blast
  from wf r Lq b fits show ?thesis by (rule frame_of_fitting_request)
qed

subsection \<open>Capacity\<close>

lemma finite_grid: "finite (grid c k)"
  by (simp add: grid_def)

lemma card_grid: "card (grid c k) = 2 ^ (MAX_ORDER c - k)"
proof -
  have "inj_on (\<lambda>i::nat. (i * 2 ^ k, k)) {..< 2 ^ (MAX_ORDER c - k)}"
    by (auto simp: inj_on_def)
  then show ?thesis unfolding grid_def by (simp add: card_image)
qed

lemma valid_block_in_grid:
  assumes "valid_block c (a, k)"
  shows "(a, k) \<in> grid c k"
proof -
  have k: "k \<le> MAX_ORDER c" and d: "2 ^ k dvd a" using assms by (simp_all add: valid_block_def)
  from d obtain i where i: "a = i * 2 ^ k" by (auto simp: dvd_def mult.commute)
  have "a < 2 ^ MAX_ORDER c" using assms by (rule valid_block_off_lt)
  moreover have "(2::nat) ^ MAX_ORDER c = 2 ^ (MAX_ORDER c - k) * 2 ^ k"
    using k by (simp add: power_add[symmetric])
  ultimately have "i * 2 ^ k < 2 ^ (MAX_ORDER c - k) * 2 ^ k" using i by simp
  then have "i < 2 ^ (MAX_ORDER c - k)" by simp
  then show ?thesis unfolding grid_def using i by blast
qed

lemma uniform_subset_grid:
  assumes inv: "ainv c F N" and N: "\<forall>b\<in>N. snd b = k"
  shows "N \<subseteq> grid c k"
proof
  fix b assume b: "b \<in> N"
  obtain a k' where ak: "b = (a, k')" by (cases b)
  then have "k' = k" using N b by auto
  moreover have "valid_block c b" using inv b by (rule ainv_valid_N)
  ultimately show "b \<in> grid c k" using ak valid_block_in_grid by simp
qed

lemma uniform_full:
  assumes inv: "ainv c F N" and N: "\<forall>b\<in>N. snd b = k" and k: "k \<le> MAX_ORDER c"
    and empty: "\<forall>j. F j = []"
  shows "N = grid c k"
proof
  show "N \<subseteq> grid c k" using inv N by (rule uniform_subset_grid)
  show "grid c k \<subseteq> N"
  proof
    fix b assume "b \<in> grid c k"
    then obtain i where i: "i < 2 ^ (MAX_ORDER c - k)" and b: "b = (i * 2 ^ k, k)"
      unfolding grid_def by blast
    have "(2::nat) ^ MAX_ORDER c = 2 ^ (MAX_ORDER c - k) * 2 ^ k"
      using k by (simp add: power_add[symmetric])
    moreover have "i * 2 ^ k < 2 ^ (MAX_ORDER c - k) * 2 ^ k" using i by simp
    ultimately have lt: "i * 2 ^ k < 2 ^ MAX_ORDER c" by simp
    have fb: "free_blocks F = {}" using empty by (auto simp: free_blocks_def)
    from tiling_cover[OF ainv_tiling[OF inv] lt] obtain a' k' where
      b': "(a', k') \<in> N" "i * 2 ^ k \<in> span (a', k')" unfolding fb by auto
    have k': "k' = k" using N b'(1) by auto
    have "valid_block c (a', k')" using inv b'(1) by (rule ainv_valid_N)
    then have "2 ^ k dvd a'" using k' by (simp add: valid_block_def)
    moreover have "2 ^ k dvd i * 2 ^ k" by simp
    moreover have "i * 2 ^ k \<in> span (i * 2 ^ k, k)" by (simp add: in_span)
    ultimately have "i * 2 ^ k = a'" using b'(2) k' by (intro aligned_same_order[of k _ a' "i * 2 ^ k"]) simp_all
    then show "b \<in> N" using b b'(1) k' by simp
  qed
qed

lemma alloc_until_null_spec:
  assumes wf: "wf_config c" and l: "log2 (sz + 1) = Some l" and nz: "sz \<noteq> 0"
    and k: "k = max (MIN_ORDER c) l" and kM: "k \<le> MAX_ORDER c"
  shows "rep c s F \<Longrightarrow> ainv c F N \<Longrightarrow> \<forall>b\<in>N. snd b = k \<Longrightarrow>
         \<exists>s'. alloc_until_null c s sz count = Some (count + (2 ^ (MAX_ORDER c - k) - card N), s')"
proof (induction "2 ^ (MAX_ORDER c - k) - card N" arbitrary: s F N count rule: less_induct)
  case less
  note rp = less.prems(1) and inv = less.prems(2) and N = less.prems(3)
  have B: "0 < BASE c" using wf by (simp add: wf_config_def)
  have sub: "N \<subseteq> grid c k" using inv N by (rule uniform_subset_grid)
  have fin: "finite N" using sub finite_grid by (rule finite_subset)
  have cardle: "card N \<le> 2 ^ (MAX_ORDER c - k)" using card_mono[OF finite_grid sub] by (simp add: card_grid)
  show ?case
  proof (cases "\<forall>i. k \<le> i \<and> i \<le> MAX_ORDER c \<longrightarrow> F i = []")
    case True
    have al: "alloc c s sz = Some (0, s)" using wf rp l True[unfolded k] by (rule alloc_exhausted)
    have "\<forall>j. k \<le> j \<longrightarrow> F j = []"
    proof (intro allI impI)
      fix j assume "k \<le> j"
      show "F j = []"
      proof (cases "j \<le> MAX_ORDER c")
        case T: True
        then show ?thesis using True \<open>k \<le> j\<close> by simp
      next
        case False
        show ?thesis
        proof (rule ccontr)
          assume "F j \<noteq> []"
          then obtain x where "x \<in> set (F j)" by (cases "F j") auto
          then have "valid_block c (x, j)" using inv by (rule_tac ainv_valid_free)
          then show False using False by (simp add: valid_block_def)
        qed
      qed
    qed
    then have "\<forall>j. F j = []" using no_free_below[OF inv N kM] by blast
    then have "N = grid c k" using uniform_full[OF inv N kM] by blast
    then have "card N = 2 ^ (MAX_ORDER c - k)" by (simp add: card_grid)
    moreover have "alloc_until_null c s sz count = Some (count, s)"
      using al by (subst alloc_until_null.simps) simp
    ultimately show ?thesis by simp
  next
    case False
    then have ex: "\<exists>i. (k \<le> i \<and> i \<le> MAX_ORDER c) \<and> F i \<noteq> []" by auto
    define j where "j = (LEAST i. (k \<le> i \<and> i \<le> MAX_ORDER c) \<and> F i \<noteq> [])"
    have j1: "(k \<le> j \<and> j \<le> MAX_ORDER c) \<and> F j \<noteq> []" unfolding j_def using ex by (rule LeastI_ex)
    have j2: "\<forall>i. k \<le> i \<and> i < j \<longrightarrow> F i = []"
    proof (intro allI impI)
      fix i assume i: "k \<le> i \<and> i < j"
      then have "\<not> ((k \<le> i \<and> i \<le> MAX_ORDER c) \<and> F i \<noteq> [])"
        unfolding j_def using not_less_Least by blast
      then show "F i = []" using i j1 by auto
    qed
    obtain x rest where Fj: "F j = x # rest" using j1 by (cases "F j") auto
    have kj: "k \<le> j" "j \<le> MAX_ORDER c" using j1 by simp_all
    let ?F' = "\<lambda>i. if k \<le> i \<and> i < j then (x + 2 ^ i) # F i else if i = j then rest else F i"
    from alloc_success[OF wf rp inv l k nz kj Fj j2] obtain s' where
      al: "alloc c s sz = Some (BASE c + x, s')" and rp': "rep c s' ?F'"
      and inv': "ainv c ?F' (insert (x, k) N)" and xN: "(x, k) \<notin> N"
      by (elim exE conjE)
    have N': "\<forall>b\<in>insert (x, k) N. snd b = k" using N by simp
    have sub': "insert (x, k) N \<subseteq> grid c k" using inv' N' by (rule uniform_subset_grid)
    have c': "card (insert (x, k) N) = Suc (card N)" using fin xN by simp
    have "card (insert (x, k) N) \<le> 2 ^ (MAX_ORDER c - k)"
      using card_mono[OF finite_grid sub'] by (simp add: card_grid)
    then have lt: "card N < 2 ^ (MAX_ORDER c - k)" using c' by simp
    then have dec: "2 ^ (MAX_ORDER c - k) - card (insert (x, k) N) < 2 ^ (MAX_ORDER c - k) - card N"
      using c' by simp
    from less.hyps[OF dec rp' inv' N', of "count + 1"] obtain s'' where
      r: "alloc_until_null c s' sz (count + 1) =
            Some (count + 1 + (2 ^ (MAX_ORDER c - k) - card (insert (x, k) N)), s'')" by blast
    have "alloc_until_null c s sz count = alloc_until_null c s' sz (count + 1)"
      using al B by (subst alloc_until_null.simps) simp
    moreover have "count + 1 + (2 ^ (MAX_ORDER c - k) - card (insert (x, k) N)) =
                   count + (2 ^ (MAX_ORDER c - k) - card N)" using lt c' by simp
    ultimately show ?thesis using r by simp
  qed
qed

lemma unat_plus_one: "unat (sz :: 32 word) < 2 ^ 31 \<Longrightarrow> unat (sz + 1) = unat sz + 1"
  by (simp add: unat_word_ariths)

lemma log2_request:
  assumes "unat (sz :: 32 word) < 2 ^ 31"
  shows "log2 (sz + 1) = Some (ceil_log2 (unat sz + 1))"
  using log2_eq[of "sz + 1"] unat_plus_one[OF assms] assms by simp

text \<open>
  Claim C1, as amended: for every size \<open>s\<close> with \<open>0 < s < (1 << MAX_POWER)\<close>, calling
  \<open>alloc(s)\<close> on a freshly constructed allocator until it returns \<open>nullptr\<close> ends, after
  exactly \<open>1 << (MAX_ORDER - max(MIN_ORDER, ceil_log2(s + 1)))\<close> successful allocations.
  (For \<open>s = 0\<close> the first call already returns \<open>nullptr\<close>.)
\<close>

theorem C1_capacity:
  assumes wf: "wf_config c" and nz: "sz \<noteq> 0" and lt: "unat sz < 2 ^ MAX_POWER c"
  shows "\<exists>s'. alloc_until_null c (BuddyAllocator c) sz 0 =
           Some (2 ^ (MAX_ORDER c - max (MIN_ORDER c) (ceil_log2 (unat sz + 1))), s')"
proof -
  let ?k = "max (MIN_ORDER c) (ceil_log2 (unat sz + 1))"
  have M: "MAX_POWER c \<le> 31" "MIN_ORDER c \<le> MAX_ORDER c" using wf by (simp_all add: wf_config_def)
  have "(2::nat) ^ MAX_POWER c \<le> 2 ^ 31" using M(1) by (intro power_increasing) simp_all
  then have s31: "unat sz < 2 ^ 31" using lt by linarith
  have l: "log2 (sz + 1) = Some (ceil_log2 (unat sz + 1))" using s31 by (rule log2_request)
  have "unat sz + 1 \<le> 2 ^ MAX_ORDER c" using lt by (simp add: MAX_ORDER_def)
  then have "ceil_log2 (unat sz + 1) \<le> MAX_ORDER c" by (rule ceil_log2_mono_bound)
  then have kM: "?k \<le> MAX_ORDER c" using M(2) by simp
  have N: "\<forall>b\<in>{}. snd b = ?k" by simp
  from alloc_until_null_spec[OF wf l nz refl kM rep_construct[OF wf] ainv_construct[OF wf] N, of 0]
  show ?thesis by simp
qed

subsection \<open>A run on a 64-byte pool\<close>

lemma run_alloc_1: "alloc cfg64 (BuddyAllocator cfg64) 1 = Some (4096, ex1)"
  by code_simp

lemma run_alloc_15: "alloc cfg64 ex1 15 = Some (4112, ex2)"
  by code_simp

lemma run_alloc_31: "alloc cfg64 ex2 31 = Some (4128, ex3)"
  by code_simp

lemma run_free_4112: "free cfg64 ex2 4112 = Some ex4"
  by code_simp

lemma run_free_4096: "free cfg64 ex4 4096 = Some ex5"
  by code_simp

lemma run_free_loop_4112: "free_loop cfg64 ex2 4112 4 = Some (ex4, 4)"
  by code_simp

lemma run_alloc_0: "alloc cfg64 (BuddyAllocator cfg64) 0 = Some (0, BuddyAllocator cfg64)"
  by code_simp

lemma run_alloc_max: "alloc cfg64 (BuddyAllocator cfg64) 0xFFFFFFFF = Some (4096, ex1)"
  by code_simp

lemma run_alloc_half: "alloc cfg64 (BuddyAllocator cfg64) 0x80000000 = None"
  by code_simp

lemma reach_ex1: "reach cfg64 ex1 live1"
  unfolding live1_def using reach.alloc_ok[OF reach.construct run_alloc_1] by simp

lemma reach_ex2: "reach cfg64 ex2 live2"
  unfolding live2_def using reach.alloc_ok[OF reach_ex1 run_alloc_15] by (simp add: live1_def)

subsection \<open>The failure conditions of alloc\<close>

lemma ceil_log2_le_iff: "ceil_log2 n \<le> k \<longleftrightarrow> n \<le> 2 ^ k"
proof
  assume "ceil_log2 n \<le> k"
  then have "(2::nat) ^ ceil_log2 n \<le> 2 ^ k" by (simp add: power_increasing)
  with ceil_log2_upper[of n] show "n \<le> 2 ^ k" by (rule order_trans)
next
  assume "n \<le> 2 ^ k"
  then show "ceil_log2 n \<le> k" by (rule ceil_log2_mono_bound)
qed

lemma req_order_eq:
  "unat (sz :: 32 word) < 2 ^ 31 \<Longrightarrow> req_order c sz = max (MIN_ORDER c) (ceil_log2 (unat sz + 1))"
  using log2_request[of sz] by (simp add: req_order_def)

text \<open>
  Outside the range in which \<open>size + 1\<close> overflows or \<open>log2\<close> shifts by 32 bits, that is
  for every \<open>size < 2 ^ 31\<close>, \<open>alloc\<close> returns in every reachable state, and it returns
  \<open>nullptr\<close> exactly when \<open>size = 0\<close>, or \<open>size + 1\<close> exceeds \<open>1 << MAX_ORDER\<close>, or the
  free lists of all orders from the requested one up to \<open>MAX_ORDER\<close> are empty; a \<open>nullptr\<close>
  return leaves the state unchanged.
\<close>

lemma alloc_null_iff:
  assumes wf: "wf_config c" and r: "reach c s L" and small: "unat sz < 2 ^ 31"
  shows "\<exists>p s' F. alloc c s sz = Some (p, s') \<and> rep c s F \<and>
           (p = 0 \<longleftrightarrow> sz = 0 \<or> 2 ^ MAX_ORDER c < unat sz + 1 \<or>
              (\<forall>i. max (MIN_ORDER c) (ceil_log2 (unat sz + 1)) \<le> i \<and> i \<le> MAX_ORDER c \<longrightarrow> F i = [])) \<and>
           (p = 0 \<longrightarrow> s' = s)"
proof -
  from reach_good[OF wf r] good_rep obtain F where rp: "rep c s F" and inv: "ainv c F (live c L)"
    by blast
  let ?l = "ceil_log2 (unat sz + 1)"
  let ?o = "max (MIN_ORDER c) ?l"
  have l: "log2 (sz + 1) = Some ?l" using small by (rule log2_request)
  have mm: "MIN_ORDER c \<le> MAX_ORDER c" using wf by (simp add: wf_config_def)
  have big: "MAX_ORDER c < ?o \<longleftrightarrow> 2 ^ MAX_ORDER c < unat sz + 1"
    using ceil_log2_le_iff[of "unat sz + 1" "MAX_ORDER c"] mm by auto
  have B: "0 < BASE c" using wf by (simp add: wf_config_def)
  show ?thesis
  proof (cases "sz = 0 \<or> MAX_ORDER c < ?o \<or> (\<forall>i. ?o \<le> i \<and> i \<le> MAX_ORDER c \<longrightarrow> F i = [])")
    case True
    have "alloc c s sz = Some (0, s)"
    proof (cases "sz = 0 \<or> MAX_ORDER c < ?o")
      case True
      with l show ?thesis by (rule alloc_rejected)
    next
      case False
      then have "\<forall>i. ?o \<le> i \<and> i \<le> MAX_ORDER c \<longrightarrow> F i = []" using True by simp
      with wf rp l show ?thesis by (rule alloc_exhausted)
    qed
    then show ?thesis using rp True big by auto
  next
    case False
    then have nz: "sz \<noteq> 0" and nb: "\<not> MAX_ORDER c < ?o"
      and ex: "\<exists>i. (?o \<le> i \<and> i \<le> MAX_ORDER c) \<and> F i \<noteq> []" by auto
    define j where "j = (LEAST i. (?o \<le> i \<and> i \<le> MAX_ORDER c) \<and> F i \<noteq> [])"
    have j1: "(?o \<le> j \<and> j \<le> MAX_ORDER c) \<and> F j \<noteq> []" unfolding j_def using ex by (rule LeastI_ex)
    have j2: "\<forall>i. ?o \<le> i \<and> i < j \<longrightarrow> F i = []"
    proof (intro allI impI)
      fix i assume i: "?o \<le> i \<and> i < j"
      then have "\<not> ((?o \<le> i \<and> i \<le> MAX_ORDER c) \<and> F i \<noteq> [])"
        unfolding j_def using not_less_Least by blast
      then show "F i = []" using i j1 by auto
    qed
    obtain x rest where Fj: "F j = x # rest" using j1 by (cases "F j") auto
    have jo: "?o \<le> j" and jm: "j \<le> MAX_ORDER c" using j1 by simp_all
    from alloc_success[OF wf rp inv l refl nz jo jm Fj j2]
    obtain s3 where a3: "alloc c s sz = Some (BASE c + x, s3)" by blast
    have "BASE c + x \<noteq> 0" using B by simp
    then show ?thesis using a3 rp False big by auto
  qed
qed

text \<open>
  For every request other than \<open>size = 0xFFFFFFFF\<close>, the order byte of a successful \<open>alloc\<close>
  is \<open>max(MIN_ORDER, ceil_log2(size + 1))\<close>, an order between \<open>MIN_ORDER\<close> and \<open>MAX_ORDER\<close>.
\<close>

lemma alloc_order_byte_law:
  assumes wf: "wf_config c" and r: "reach c s L" and al: "alloc c s sz = Some (p, s')"
    and pnz: "p \<noteq> 0" and nomax: "sz \<noteq> - 1"
  shows "load_byte c s' (p - 1) = Some (word_of_nat (max (MIN_ORDER c) (ceil_log2 (unat sz + 1))))"
    and "MIN_ORDER c \<le> max (MIN_ORDER c) (ceil_log2 (unat sz + 1))"
    and "max (MIN_ORDER c) (ceil_log2 (unat sz + 1)) \<le> MAX_ORDER c"
proof -
  have g: "good c s L" using wf r by (rule reach_good)
  obtain l where l: "log2 (sz + 1) = Some l"
    using al alloc_undefined[of sz c s] by (cases "log2 (sz + 1)") auto
  have "sz + 1 \<noteq> 0" using nomax by (simp add: eq_neg_iff_add_eq_0)
  then have u1: "unat (sz + 1) = unat sz + 1" by (simp add: add.commute unatSuc)
  have "\<not> 2 ^ 31 < unat (sz + 1)" using l log2_undefined[of "sz + 1"] by auto
  then have small: "unat sz < 2 ^ 31" using u1 by simp
  have ro: "req_order c sz = max (MIN_ORDER c) (ceil_log2 (unat sz + 1))"
    using small by (rule req_order_eq)
  from wf g al pnz obtain x where x: "p = BASE c + x" "valid_block c (x, req_order c sz)"
    "load_byte c s' (p - 1) = Some (word_of_nat (req_order c sz))"
    by (rule alloc_ok_facts)
  show "load_byte c s' (p - 1) = Some (word_of_nat (max (MIN_ORDER c) (ceil_log2 (unat sz + 1))))"
    using x(3) ro by simp
  show "MIN_ORDER c \<le> max (MIN_ORDER c) (ceil_log2 (unat sz + 1))" by simp
  show "max (MIN_ORDER c) (ceil_log2 (unat sz + 1)) \<le> MAX_ORDER c"
    using x(2) ro by (simp add: valid_block_def)
qed

subsection \<open>Instances of the claims\<close>

lemma max_order_cfg64: "MAX_ORDER cfg64 = 6" "MAX_POWER cfg64 = 6" "BASE cfg64 = 4096"
  by (simp_all add: MAX_ORDER_def cfg64_def)

lemma ceil_log2_1: "ceil_log2 1 = 0"
  by (simp add: ceil_log2.simps)

lemma ceil_log2_2: "ceil_log2 2 = 1" "ceil_log2 (Suc (Suc 0)) = 1"
  using ceil_log2_unique[of 2 1] by (simp_all add: numeral_2_eq_2)

lemma ceil_log2_pow2: "ceil_log2 (2 ^ k) = k"
  by (rule ceil_log2_unique) (simp_all add: power_strict_increasing)

text \<open>
  The states \<open>ex4\<close> and \<open>ex5\<close> are reached by releasing the two allocations of \<open>ex2\<close>.
\<close>

lemma reach_ex4: "reach cfg64 ex4 live1"
proof -
  have "live2 4112 = Some 15" by (simp add: live2_def)
  from reach.free_ok[OF reach_ex2 this run_free_4112]
  have "reach cfg64 ex4 (live2(4112 := None))" .
  moreover have "live2(4112 := None) = live1" by (auto simp: live2_def live1_def fun_eq_iff)
  ultimately show ?thesis by simp
qed

lemma reach_ex5: "reach cfg64 ex5 Map.empty"
proof -
  have "live1 4096 = Some 1" by (simp add: live1_def)
  from reach.free_ok[OF reach_ex4 this run_free_4096]
  have "reach cfg64 ex5 (live1(4096 := None))" .
  moreover have "live1(4096 := None) = Map.empty" by (auto simp: live1_def fun_eq_iff)
  ultimately show ?thesis by simp
qed

text \<open>
  C1 at \<open>s = 1\<close> on the 64-byte pool: four allocations of order 4 succeed.
\<close>

theorem C1_capacity_witness:
  "wf_config cfg64 \<and> (1 :: 32 word) \<noteq> 0 \<and> unat (1 :: 32 word) < 2 ^ MAX_POWER cfg64 \<and>
   (\<exists>s'. alloc_until_null cfg64 (BuddyAllocator cfg64) 1 0 = Some (4, s'))"
proof -
  have h: "unat (1 :: 32 word) < 2 ^ MAX_POWER cfg64" by (simp add: max_order_cfg64)
  have nz: "(1 :: 32 word) \<noteq> 0" by simp
  from C1_capacity[OF wf_cfg64 nz h]
  have "\<exists>s'. alloc_until_null cfg64 (BuddyAllocator cfg64) 1 0 = Some (4, s')"
    by (simp add: max_order_cfg64 min_order_cfg64 ceil_log2_2)
  then show ?thesis using wf_cfg64 h nz by blast
qed

text \<open>
  Counterexample to C1 as stated: \<open>s = 0\<close> satisfies \<open>s < (1 << MAX_POWER)\<close>, the first
  \<open>alloc(0)\<close> returns \<open>nullptr\<close> (line 84), so no allocation succeeds, while the formula
  of the claim gives \<open>1 << (6 - 4) = 4\<close>.
\<close>

theorem C1_counterexample:
  "unat (0 :: 32 word) < 2 ^ MAX_POWER cfg64 \<and>
   alloc_until_null cfg64 (BuddyAllocator cfg64) 0 0 = Some (0, BuddyAllocator cfg64) \<and>
   (0 :: nat) \<noteq> 2 ^ (MAX_ORDER cfg64 - max (MIN_ORDER cfg64) (ceil_log2 (unat (0 :: 32 word) + 1)))"
proof -
  have "alloc_until_null cfg64 (BuddyAllocator cfg64) 0 0 = Some (0, BuddyAllocator cfg64)"
    using run_alloc_0 by (subst alloc_until_null.simps) simp
  then show ?thesis by (simp add: max_order_cfg64)
qed

text \<open>
  Claim C2 does not hold of the code. For \<open>size = 0xFFFFFFFF\<close> the sum \<open>size + 1\<close> of line 81
  wraps to 0, \<open>log2(0)\<close> is 0, the order is \<open>MIN_ORDER\<close> and \<open>alloc\<close> returns a block of
  \<open>1 << MIN_ORDER\<close> bytes although \<open>size + 1\<close> exceeds \<open>1 << MAX_ORDER\<close>. For \<open>size = 0x80000000\<close>
  the loop of \<open>log2\<close> shifts by 32 bits: the behaviour is undefined, where the claim
  promises a \<open>nullptr\<close>. (For every smaller size the claim holds: \<open>alloc_null_iff\<close>.)
\<close>

theorem C2_overflow_accepted:
  "alloc cfg64 (BuddyAllocator cfg64) 0xFFFFFFFF = Some (BASE cfg64, ex1) \<and> BASE cfg64 \<noteq> 0 \<and>
   2 ^ MAX_ORDER cfg64 < unat (0xFFFFFFFF :: 32 word) + 1 \<and>
   alloc cfg64 (BuddyAllocator cfg64) 0x80000000 = None"
  using run_alloc_max run_alloc_half by (simp add: max_order_cfg64)

text \<open>
  C3 at the state \<open>ex5\<close>, reached by two allocations and their release.
\<close>

theorem C3_recovery_witness:
  "wf_config cfg64 \<and> reach cfg64 ex5 Map.empty \<and>
   m_freelists ex5 = m_freelists (BuddyAllocator cfg64) \<and>
   load_ptr cfg64 ex5 (BASE cfg64) = Some 0 \<and>
   (\<exists>s'. alloc cfg64 ex5 (2 ^ MAX_ORDER cfg64 - 1) = Some (BASE cfg64, s'))"
  using C3_recovery[OF wf_cfg64 reach_ex5] wf_cfg64 reach_ex5 by blast

text \<open>
  C4, as amended, at the second allocation of the run.
\<close>

theorem C4_containment_witness:
  "wf_config cfg64 \<and> reach cfg64 ex1 live1 \<and> alloc cfg64 ex1 15 = Some (4112, ex2) \<and>
   (4112 :: nat) \<noteq> 0 \<and> BASE cfg64 \<le> 4112 \<and> 4112 \<le> BASE cfg64 + 2 ^ MAX_POWER cfg64 - 1"
proof -
  have nz: "(4112 :: nat) \<noteq> 0" by simp
  from C4_containment[OF wf_cfg64 reach_ex1 run_alloc_15 nz]
  show ?thesis using wf_cfg64 reach_ex1 run_alloc_15 by simp
qed

text \<open>
  Counterexample to C4 as stated: the first \<open>alloc(1)\<close> on a new allocator returns the
  base of the buffer itself, so \<open>base < p\<close> fails.
\<close>

theorem C4_counterexample:
  "reach cfg64 (BuddyAllocator cfg64) Map.empty \<and>
   alloc cfg64 (BuddyAllocator cfg64) 1 = Some (BASE cfg64, ex1) \<and> BASE cfg64 \<noteq> 0 \<and>
   \<not> BASE cfg64 < BASE cfg64"
  using run_alloc_1 reach.construct[of cfg64] by (simp add: max_order_cfg64)

text \<open>
  Claim C5 does not hold of the code, by the overflow of \<open>size + 1\<close> (see C2): the
  successful \<open>alloc(0xFFFFFFFF)\<close> records the order 4, where
  \<open>max(MIN_ORDER, ceil_log2(s + 1))\<close> is 32. (For every other size the claim holds:
  \<open>alloc_order_byte_law\<close>.)
\<close>

theorem C5_overflow_order:
  "alloc cfg64 (BuddyAllocator cfg64) 0xFFFFFFFF = Some (4096, ex1) \<and>
   load_byte cfg64 ex1 (4096 - 1) = Some 4 \<and>
   max (MIN_ORDER cfg64) (ceil_log2 (unat (0xFFFFFFFF :: 32 word) + 1)) = 32"
proof -
  have "load_byte cfg64 ex1 (4096 - 1) = Some 4"
    by (simp add: load_byte_def max_order_cfg64 ex1_def)
  moreover have "ceil_log2 (unat (0xFFFFFFFF :: 32 word) + 1) = 32"
    using ceil_log2_pow2[of 32] by simp
  ultimately show ?thesis using run_alloc_max by (simp add: min_order_cfg64)
qed

text \<open>
  C6 at the second allocation of the run.
\<close>

theorem C6_alignment_witness:
  "wf_config cfg64 \<and> reach cfg64 ex1 live1 \<and> alloc cfg64 ex1 15 = Some (4112, ex2) \<and>
   (4112 :: nat) \<noteq> 0 \<and>
   (\<exists>b. load_byte cfg64 ex2 (4112 - 1) = Some b \<and> BASE cfg64 \<le> 4112 \<and>
        2 ^ unat b dvd (4112 - BASE cfg64))"
proof -
  have nz: "(4112 :: nat) \<noteq> 0" by simp
  from C6_alignment[OF wf_cfg64 reach_ex1 run_alloc_15 nz]
  show ?thesis using wf_cfg64 reach_ex1 run_alloc_15 by simp
qed

text \<open>
  C7 in the state \<open>ex2\<close>, after two allocations.
\<close>

theorem C7_no_free_buddies_witness:
  "wf_config cfg64 \<and> reach cfg64 ex2 live2 \<and>
   (\<exists>F. rep cfg64 ex2 F \<and>
      (\<forall>k. \<forall>x\<in>set (F k). buddy_of cfg64 (BASE cfg64 + x) k \<notin> (\<lambda>y. BASE cfg64 + y) ` set (F k)))"
  using C7_no_free_buddies[OF wf_cfg64 reach_ex2] wf_cfg64 reach_ex2 by blast

text \<open>
  C8 at \<open>free(4096)\<close> in the state \<open>ex4\<close>, which coalesces twice and arrives at \<open>MAX_ORDER\<close>.
\<close>

theorem C8_free_terminates_witness:
  "wf_config cfg64 \<and> reach cfg64 ex4 live1 \<and> live1 4096 = Some 1 \<and>
   (\<exists>b s' kf. load_byte cfg64 ex4 (4096 - 1) = Some b \<and> free cfg64 ex4 4096 = Some s' \<and>
      free_loop cfg64 ex4 4096 (unat b) = Some (s', kf) \<and>
      unat b \<le> kf \<and> kf \<le> MAX_ORDER cfg64 \<and> kf - unat b \<le> MAX_ORDER cfg64 - unat b \<and>
      last_round cfg64 s' kf \<and>
      (kf = MAX_ORDER cfg64 \<longrightarrow>
         (\<exists>s1. free_loop cfg64 s1 (BASE cfg64) (MAX_ORDER cfg64) = Some (s', kf) \<and>
               search_fails cfg64 s1 (BASE cfg64) (MAX_ORDER cfg64)) \<and>
         buddy_of cfg64 (BASE cfg64) (MAX_ORDER cfg64) = BASE cfg64 + length (m_buffer ex4) \<and>
         llist cfg64 s' (m_freelists s' ! (MAX_ORDER cfg64 - MIN_ORDER cfg64)) [0] \<and>
         (\<forall>k. MIN_ORDER cfg64 \<le> k \<and> k < MAX_ORDER cfg64 \<longrightarrow>
              m_freelists s' ! (k - MIN_ORDER cfg64) = 0)))"
proof -
  have L: "live1 4096 = Some 1" by (simp add: live1_def)
  from C8_free_terminates[OF wf_cfg64 reach_ex4 L]
  show ?thesis using wf_cfg64 reach_ex4 L by blast
qed

text \<open>
  C9, as amended, on the 64-byte pool.
\<close>

theorem C9_split_policy_witness:
  "wf_config cfg64 \<and> MIN_ORDER cfg64 < MAX_ORDER cfg64 \<and>
   (\<exists>s1 s2. alloc cfg64 (BuddyAllocator cfg64) 1 = Some (BASE cfg64 + 0, s1) \<and>
      alloc cfg64 s1 (2 ^ MIN_ORDER cfg64 - 1) = Some (BASE cfg64 + 2 ^ MIN_ORDER cfg64, s2))"
proof -
  have lt: "MIN_ORDER cfg64 < MAX_ORDER cfg64" by (simp add: min_order_cfg64 max_order_cfg64)
  from C9_split_policy[OF wf_cfg64 lt] show ?thesis using wf_cfg64 lt by blast
qed

text \<open>
  Counterexample to C9 as stated: on the new allocator \<open>alloc(1)\<close> returns the pointer at
  offset 0 from the base of the buffer, not at offset 1.
\<close>

lemma run_alloc_single_block:
  "MIN_ORDER cfg16 = MAX_ORDER cfg16 \<and> alloc cfg16 (BuddyAllocator cfg16) 1 = Some (4096, ex16) \<and>
   alloc cfg16 ex16 15 = Some (0, ex16)"
proof -
  have "MIN_ORDER cfg16 = 4"
    by (simp add: MIN_ORDER_def cfg16_def log2_def log2_loop.simps)
  moreover have "alloc cfg16 (BuddyAllocator cfg16) 1 = Some (4096, ex16)" by code_simp
  moreover have "alloc cfg16 ex16 15 = Some (0, ex16)" by code_simp
  ultimately show ?thesis by (simp add: MAX_ORDER_def cfg16_def)
qed

theorem C9_counterexample:
  "alloc cfg64 (BuddyAllocator cfg64) 1 = Some (BASE cfg64 + 0, ex1) \<and>
   BASE cfg64 + 0 \<noteq> BASE cfg64 + 1"
  using run_alloc_1 by (simp add: max_order_cfg64)

text \<open>
  The frame property in the state \<open>ex2\<close>, for the one-byte allocation at 4096: \<open>alloc(31)\<close>
  and \<open>free(4112)\<close> leave its byte and its order byte unchanged.
\<close>

lemma frame_except_overflow_instance:
  "kept cfg64 4096 (unat (1 :: 32 word)) ex2 ex3 \<and> kept cfg64 4096 (unat (1 :: 32 word)) ex2 ex4"
proof -
  have Lq: "live2 4096 = Some 1" and Lp: "live2 4112 = Some 15" by (simp_all add: live2_def)
  have ne: "(4112 :: nat) \<noteq> 4096" and nomax: "(1 :: 32 word) \<noteq> - 1" by simp_all
  from frame_except_overflow[OF wf_cfg64 reach_ex2 Lq nomax, of 31 4128 ex3 4112 15 ex4]
  show ?thesis using run_alloc_31 Lp ne run_free_4112 by blast
qed

text \<open>
  The same two allocations with \<open>0xFFFFFFFF\<close> as the first request: the state \<open>ex1\<close> is
  reached with the request of \<open>0xFFFFFFFF\<close> bytes outstanding at 4096, and the \<open>alloc(15)\<close>
  that follows does not keep its bytes.
\<close>

lemma reach_ex1_overflow: "reach cfg64 ex1 [4096 \<mapsto> 0xFFFFFFFF]"
  using reach.alloc_ok[OF reach.construct run_alloc_max] by simp

lemma frame_broken_by_overflow:
  "\<not> kept cfg64 4096 (unat (0xFFFFFFFF :: 32 word)) ex1 ex2"
proof
  assume "kept cfg64 4096 (unat (0xFFFFFFFF :: 32 word)) ex1 ex2"
  then have "\<forall>i<unat (0xFFFFFFFF :: 32 word).
      load_byte cfg64 ex2 (4096 + i) = load_byte cfg64 ex1 (4096 + i)"
    by (simp add: kept_def)
  moreover have "15 < unat (0xFFFFFFFF :: 32 word)" by simp
  ultimately have "load_byte cfg64 ex2 (4096 + 15) = load_byte cfg64 ex1 (4096 + 15)" by blast
  then show False by (simp add: load_byte_def max_order_cfg64 ex1_def ex2_def)
qed

text \<open>
  Claim C10 does not hold of the code, by the overflow of \<open>size + 1\<close> (see C2). On a new
  allocator \<open>alloc(0xFFFFFFFF)\<close> returns the block of 16 bytes at 4096, of order 4. The
  following \<open>alloc(15)\<close> returns 4112 and writes its order byte (line 116) at
  \<open>4112 - 1 = 4096 + 15\<close>, which is one of the \<open>0xFFFFFFFF\<close> payload bytes of the live
  allocation at 4096: that byte changes from 0 to 4. (For every outstanding request other
  than \<open>0xFFFFFFFF\<close> the claim holds: \<open>frame_except_overflow\<close>.)
\<close>

theorem C10_overflow_frame:
  "alloc cfg64 (BuddyAllocator cfg64) 0xFFFFFFFF = Some (4096, ex1) \<and>
   alloc cfg64 ex1 15 = Some (4112, ex2) \<and>
   15 < unat (0xFFFFFFFF :: 32 word) \<and>
   load_byte cfg64 ex1 (4096 + 15) = Some 0 \<and>
   load_byte cfg64 ex2 (4096 + 15) = Some 4"
proof -
  have "load_byte cfg64 ex1 (4096 + 15) = Some 0"
    by (simp add: load_byte_def max_order_cfg64 ex1_def)
  moreover have "load_byte cfg64 ex2 (4096 + 15) = Some 4"
    by (simp add: load_byte_def max_order_cfg64 ex2_def)
  ultimately show ?thesis using run_alloc_max run_alloc_15 by simp
qed

end
